theory Spec2Isabelle
  imports Main "HOL-Library.Word" "HOL-Library.Multiset"
begin

unbundle bit_operations_syntax

section \<open>Data model of unimg.c\<close>

text \<open>
  Bytes are \<open>uint8_t\<close>, header fields are \<open>uint32_t\<close>. Values of type \<open>size_t\<close> and
  \<open>u64\<close> (buffer lengths, loop indices, file offsets) are natural numbers: every such
  value in the program is bounded by the length of a buffer held in memory or by
  \<open>2^32 + 2^32\<close>, so 64-bit arithmetic on them cannot wrap. The one narrowing conversion
  of the scanner, \<open>(uint32_t)j\<close>, is kept as \<open>of_nat\<close> into the 32-bit words.
\<close>

type_synonym u8 = "8 word"
type_synonym u32 = "32 word"

record WrldHeader =
  lvz_off :: u32
  wrld_type :: u32
  total_size :: u32
  global0 :: u32
  global1 :: u32
  global_count :: u32
  continuation :: u32
  reserved :: u32

text \<open>
  An output file \<open>wrld_%04zu.wrld\<close> is identified by its sequence number. The lines of
  the log file are kept as values, one constructor per \<open>fprintf(log, ...)\<close> of the
  source, with the arguments of the format string.
\<close>

type_synonym path = nat

datatype log_line =
    LogPreamble
  | IoLvz nat nat
  | ErrTooSmall
  | WarnNoMagic
  | ScanHit nat WrldHeader
  | ScanTotal nat
  | ErrNoHeaders
  | ErrCannotOpenImg
  | IoImg nat
  | ErrCannotWrite path
  | ErrHeaderWrite path
  | WarnBeyond nat nat
  | WarnClipped nat nat
  | Build path nat nat u32
  | WarnFailed path int
  | Done nat

text \<open>
  A \<open>FILE* log\<close> may be \<open>NULL\<close> (\<open>None\<close>); an open log is the list of lines written
  so far. \<open>fprintf_log\<close> is the source's \<open>if (log) fprintf(log, ...)\<close>.
\<close>

type_synonym log = "log_line list option"

definition fprintf_log :: "log \<Rightarrow> log_line \<Rightarrow> log" where
  "fprintf_log lg x = (case lg of None \<Rightarrow> None | Some ls \<Rightarrow> Some (ls @ [x]))"

section \<open>The signature scanner\<close>

definition read_u32le :: "u8 list \<Rightarrow> nat \<Rightarrow> u32" where
  "read_u32le b off =
     (ucast (b ! off) OR push_bit 8 (ucast (b ! (off + 1)))
        OR push_bit 16 (ucast (b ! (off + 2))) OR push_bit 24 (ucast (b ! (off + 3))))"

text \<open>The test of the inner \<open>for\<close> loop: the bytes \<open>'D','L','R','W'\<close> at \<open>j .. j+3\<close>.\<close>

definition is_marker :: "u8 list \<Rightarrow> nat \<Rightarrow> bool" where
  "is_marker d j =
     (d ! j = 0x44 \<and> d ! (j + 1) = 0x4C \<and> d ! (j + 2) = 0x52 \<and> d ! (j + 3) = 0x57)"

text \<open>
  The inner loop \<open>for (; j + 4 <= n; ++j) if (...) break;\<close>: the value of \<open>j\<close> when it
  is left.
\<close>

function find_marker :: "u8 list \<Rightarrow> nat \<Rightarrow> nat" where
  "find_marker d j =
     (if j + 4 \<le> length d then (if is_marker d j then j else find_marker d (j + 1)) else j)"
  by pat_completeness auto
termination
  by (relation "measure (\<lambda>(d, j). length d - j)") auto

declare find_marker.simps [simp del]

lemma find_marker_ge: "j \<le> find_marker d j"
proof (induction d j rule: find_marker.induct)
  case (1 d j)
  show ?case
  proof (cases "j + 4 \<le> length d \<and> \<not> is_marker d j")
    case True
    with 1 have "j + 1 \<le> find_marker d (j + 1)" by simp
    moreover from True have "find_marker d j = find_marker d (j + 1)"
      by (subst find_marker.simps) simp
    ultimately show ?thesis by simp
  next
    case False
    then have "find_marker d j = j"
      by (subst find_marker.simps) auto
    then show ?thesis by simp
  qed
qed

text \<open>The header built at a match position \<open>j\<close> (the seven reads and the initialiser).\<close>

definition header_at :: "u8 list \<Rightarrow> nat \<Rightarrow> WrldHeader" where
  "header_at d j =
     \<lparr> lvz_off = of_nat j,
       wrld_type = read_u32le d (j + 0x04),
       total_size = read_u32le d (j + 0x08),
       global0 = read_u32le d (j + 0x0C),
       global1 = read_u32le d (j + 0x10),
       global_count = read_u32le d (j + 0x14),
       continuation = read_u32le d (j + 0x18),
       reserved = read_u32le d (j + 0x1C) \<rparr>"

text \<open>
  The state of the outer \<open>while (1)\<close> loop: the header list (\<open>header_list_push\<close> appends;
  the capacity of the C array is not modelled), the counter \<open>hits\<close> and the log.
\<close>

record scan_state =
  sc_out :: "WrldHeader list"
  sc_hits :: nat
  sc_log :: log

definition scan_push :: "scan_state \<Rightarrow> WrldHeader \<Rightarrow> scan_state" where
  "scan_push st h =
     (let out' = sc_out st @ [h] in
      \<lparr> sc_out = out',
        sc_hits = sc_hits st + 1,
        sc_log = (if sc_log st \<noteq> None \<and> sc_hits st < 50
                  then fprintf_log (sc_log st) (ScanHit (length out' - 1) h)
                  else sc_log st) \<rparr>)"

function scan_loop :: "u8 list \<Rightarrow> nat \<Rightarrow> scan_state \<Rightarrow> scan_state" where
  "scan_loop d i st =
     (let j = find_marker d i in
      if j + 32 > length d then st
      else
        let h = header_at d j in
        scan_loop d (j + 4)
          (if total_size h \<ge> 32 \<and> continuation h \<noteq> 0 then scan_push st h else st))"
  by pat_completeness auto
termination
proof (relation "measure (\<lambda>(d, i, st). length d - i)")
  show "wf (measure (\<lambda>(d, i, st). length d - i))" by simp
next
  fix d :: "u8 list" and i :: nat and st :: scan_state and x xa
  assume "x = find_marker d i" and "\<not> length d < x + 32"
  with find_marker_ge [of i d]
  show "((d, x + 4, if 32 \<le> total_size xa \<and> continuation xa \<noteq> 0 then scan_push st xa else st),
          d, i, st) \<in> measure (\<lambda>(d, i, st). length d - i)"
    by simp
qed

declare scan_loop.simps [simp del]


subsection \<open>Sorting and removing duplicates\<close>

definition cmp_by_lvz_off :: "WrldHeader \<Rightarrow> WrldHeader \<Rightarrow> int" where
  "cmp_by_lvz_off x y =
     (if lvz_off x < lvz_off y then - 1 else if lvz_off x > lvz_off y then 1 else 0)"

text \<open>
  \<open>qsort\<close> is a function of the C library, not of this program: it is a parameter
  \<open>qs\<close> of the model (the library's \<open>qsort\<close> applied with \<open>cmp_by_lvz_off\<close>), and
  \<open>qsort_contract\<close> is what the C standard promises of it: the array is permuted into
  ascending order with respect to the comparison function. The order of elements that
  compare equal is left open.
\<close>

definition qsort_contract :: "(WrldHeader list \<Rightarrow> WrldHeader list) \<Rightarrow> bool" where
  "qsort_contract qs =
     (\<forall>xs. mset (qs xs) = mset xs \<and> sorted_wrt (\<lambda>a b. cmp_by_lvz_off a b \<le> 0) (qs xs))"

text \<open>
  One function that meets the contract, a stable insertion sort on \<open>lvz_off\<close>; it
  stands for the parameter where a concrete input is evaluated.
\<close>

definition qsort_model :: "WrldHeader list \<Rightarrow> WrldHeader list" where
  "qsort_model xs = sort_key lvz_off xs"

text \<open>
  The loop \<open>for (r = 0; r < count; ++r) if (w == 0 || items[r].lvz_off !=
  items[w-1].lvz_off) items[w++] = items[r];\<close> on the array itself: the result is the
  array and \<open>w\<close>, the new \<open>count\<close>.
\<close>

function dedupe_loop :: "WrldHeader list \<Rightarrow> nat \<Rightarrow> nat \<Rightarrow> WrldHeader list \<times> nat" where
  "dedupe_loop items r w =
     (if r < length items then
        (if w = 0 \<or> lvz_off (items ! r) \<noteq> lvz_off (items ! (w - 1))
         then dedupe_loop (items[w := items ! r]) (r + 1) (w + 1)
         else dedupe_loop items (r + 1) w)
      else (items, w))"
  by pat_completeness auto
termination
  by (relation "measure (\<lambda>(items, r, w). length items - r)") auto

declare dedupe_loop.simps [simp del]

text \<open>Lines 278 to 286 of the source: sort, remove duplicates, keep the first \<open>w\<close> items.\<close>

definition sort_dedupe ::
  "(WrldHeader list \<Rightarrow> WrldHeader list) \<Rightarrow> WrldHeader list \<Rightarrow> WrldHeader list" where
  "sort_dedupe qs out =
     (case dedupe_loop (qs out) 0 0 of (items, w) \<Rightarrow> take w items)"

definition scan_slave_headers ::
  "(WrldHeader list \<Rightarrow> WrldHeader list) \<Rightarrow> u8 list \<Rightarrow> log \<Rightarrow> WrldHeader list \<times> log" where
  "scan_slave_headers qs d lg =
     (let st = scan_loop d 0 \<lparr> sc_out = [], sc_hits = 0, sc_log = lg \<rparr>;
          out = sort_dedupe qs (sc_out st)
      in (out, fprintf_log (sc_log st) (ScanTotal (length out))))"

section \<open>The decompression resolver\<close>

text \<open>
  zlib is a library, not part of this program: its two entry points are parameters of
  the model. \<open>inflateInit2\<close> returns the decoder's state when it answers \<open>Z_OK\<close> and
  \<open>None\<close> otherwise. \<open>inflate\<close> is called with the stream and the space offered
  (\<open>avail_out\<close>); it returns its code, the bytes it stored at \<open>next_out\<close> and the stream
  afterwards. zlib stores at most \<open>avail_out\<close> bytes, which the model enforces on the
  parameter by \<open>take\<close>.
\<close>

datatype zret = Z_OK | Z_STREAM_END | Z_OTHER int

record 'z z_stream =
  next_in :: "u8 list"
  avail_in :: nat
  zstate :: 'z

record 'z zlib =
  inflateInit2 :: "int \<Rightarrow> 'z option"
  inflate :: "'z z_stream \<Rightarrow> nat \<Rightarrow> zret \<times> u8 list \<times> 'z z_stream"

text \<open>
  The loop \<open>for (;;)\<close> of \<open>try_inflate\<close>. The buffer \<open>out\<close> is a list of \<open>cap\<close> bytes
  (memory from \<open>xmalloc\<close> and \<open>xrealloc\<close> is taken as zero bytes; allocation is assumed to
  succeed). \<open>avail_out\<close> is \<open>(unsigned)(cap - total)\<close>, and the new \<open>total\<close> (here \<open>tot\<close>) is
  \<open>cap - strm.avail_out\<close>. The loop ends only when \<open>inflate\<close> answers something other
  than \<open>Z_OK\<close>, so the result is \<open>None\<close> when it never does. A result \<open>Inl rc\<close> is the
  return value \<open>rc\<close> of a failed attempt, \<open>Inr (out, total)\<close> is the return value 0 with
  \<open>*out_data = out\<close> and \<open>*out_len = total\<close>.
\<close>

partial_function (option) inflate_loop ::
  "'z zlib \<Rightarrow> 'z z_stream \<Rightarrow> u8 list \<Rightarrow> nat \<Rightarrow> nat \<Rightarrow> (int + u8 list \<times> nat) option" where
  "inflate_loop zl strm out cap tot =
     (let cap' = (if tot = cap then cap * 2 + 8192 else cap);
          out' = (if tot = cap then out @ replicate (cap' - cap) 0 else out);
          avail = (cap' - tot) mod 2 ^ 32
      in case inflate zl strm avail of (ret, stored, strm') \<Rightarrow>
        let bytes = take avail stored;
            out'' = take tot out' @ bytes @ drop (tot + length bytes) out';
            avail_after = avail - length bytes
        in if ret = Z_STREAM_END then Some (Inr (out'', cap' - avail_after))
           else if ret \<noteq> Z_OK then Some (Inl (- 2))
           else inflate_loop zl strm' out'' cap' (cap' - avail_after))"

definition try_inflate ::
  "'z zlib \<Rightarrow> u8 list \<Rightarrow> int \<Rightarrow> (int + u8 list \<times> nat) option" where
  "try_inflate zl inp window_bits =
     (case inflateInit2 zl window_bits of
        None \<Rightarrow> Some (Inl (- 1))
      | Some z \<Rightarrow>
          let cap0 = length inp * 3 + 1024;
              cap = (if cap0 < 4096 then 4096 else cap0);
              out = replicate cap 0;
              strm = \<lparr> next_in = inp, avail_in = length inp mod 2 ^ 32, zstate = z \<rparr>
          in inflate_loop zl strm out cap 0)"

text \<open>
  \<open>maybe_decompress_lvz\<close>: zlib (15), then gzip (16 + 15), then raw DEFLATE (-15), else
  a copy of the input. The result is the buffer and its valid length.
\<close>

definition maybe_decompress_lvz :: "'z zlib \<Rightarrow> u8 list \<Rightarrow> (u8 list \<times> nat) option" where
  "maybe_decompress_lvz zl inp =
     (case try_inflate zl inp 15 of
        None \<Rightarrow> None
      | Some (Inr (d, n)) \<Rightarrow> Some (d, n)
      | Some (Inl _) \<Rightarrow>
          (case try_inflate zl inp (16 + 15) of
             None \<Rightarrow> None
           | Some (Inr (d, n)) \<Rightarrow> Some (d, n)
           | Some (Inl _) \<Rightarrow>
               (case try_inflate zl inp (- 15) of
                  None \<Rightarrow> None
                | Some (Inr (d, n)) \<Rightarrow> Some (d, n)
                | Some (Inl _) \<Rightarrow> Some (inp, length inp))))"


section \<open>The record reconstructor\<close>

text \<open>
  The file system is the environment of the program. Its behaviour is a parameter:
  \<open>fopen_wb_ok p\<close> says whether \<open>fopen(p, "wb")\<close> succeeds. For one \<open>fwrite\<close> of \<open>n\<close>
  bytes on file \<open>p\<close> of current length \<open>len\<close>, \<open>fwrite_n p len n\<close> bounds the number of
  bytes that reach the file, and \<open>fwrite_ret p len n\<close> bounds the count the call
  returns. The two differ because the stream is buffered and the result of \<open>fclose\<close> is
  never looked at: \<open>fwrite\<close> can return \<open>n\<close> for bytes that are lost when the buffer is
  flushed. The count returned is at least the number of bytes that reach the file and
  at most \<open>n\<close>. \<open>fread_n pos n\<close> bounds the number of bytes one \<open>fread\<close> of \<open>n\<close> bytes at
  position \<open>pos\<close> of the payload file delivers (a short read when less than \<open>n\<close>).
  The state holds the output files as they are after the run and, for the claims
  about reads, the list of \<open>fread\<close> requests made on the payload file, each with its
  position and the count asked for. Seeking in the payload file is assumed to
  succeed.
\<close>

record io_env =
  fopen_wb_ok :: "path \<Rightarrow> bool"
  fwrite_n :: "path \<Rightarrow> nat \<Rightarrow> nat \<Rightarrow> nat"
  fwrite_ret :: "path \<Rightarrow> nat \<Rightarrow> nat \<Rightarrow> nat"
  fread_n :: "nat \<Rightarrow> nat \<Rightarrow> nat"

record io_state =
  files :: "path \<rightharpoonup> u8 list"
  img_reads :: "(nat \<times> nat) list"

text \<open>\<open>fread(buf, 1, want, img)\<close> at position \<open>pos\<close>: the bytes delivered.\<close>

definition fread :: "io_env \<Rightarrow> u8 list \<Rightarrow> nat \<Rightarrow> nat \<Rightarrow> u8 list" where
  "fread env img pos want = take (min want (fread_n env pos want)) (drop pos img)"

text \<open>
  \<open>fwrite(buf, 1, n, f)\<close>: the count \<open>r\<close> it returns and the state afterwards, in which
  \<open>k\<close> of the bytes have reached the file.
\<close>

definition fwrite :: "io_env \<Rightarrow> path \<Rightarrow> u8 list \<Rightarrow> io_state \<Rightarrow> nat \<times> io_state" where
  "fwrite env f buf st =
     (let cur = (case files st f of None \<Rightarrow> [] | Some c \<Rightarrow> c);
          k = min (length buf) (fwrite_n env f (length cur) (length buf));
          r = max k (min (length buf) (fwrite_ret env f (length cur) (length buf)))
      in (r, st\<lparr> files := (files st)(f \<mapsto> cur @ take k buf) \<rparr>))"

definition CHUNK :: nat where
  "CHUNK = 2 ^ 20"

text \<open>
  The loop \<open>while (left)\<close> of \<open>copy_img_slice\<close>; \<open>pos\<close> is the position of the payload
  stream. The result of \<open>fwrite\<close> is not looked at, as in the source.
\<close>

function copy_loop ::
  "io_env \<Rightarrow> u8 list \<Rightarrow> path \<Rightarrow> nat \<Rightarrow> nat \<Rightarrow> nat \<Rightarrow> io_state \<Rightarrow> nat \<times> io_state" where
  "copy_loop env img f pos left tot st =
     (if left = 0 then (tot, st)
      else
        let want = (if left > CHUNK then CHUNK else left);
            buf = fread env img pos want;
            got = length buf;
            st1 = st\<lparr> img_reads := img_reads st @ [(pos, want)] \<rparr>
        in if got = 0 then (tot, st1)
           else
             let st2 = snd (fwrite env f buf st1) in
             if got < want then (tot + got, st2)
             else copy_loop env img f (pos + got) (left - got) (tot + got) st2)"
  by pat_completeness auto
termination
  by (relation "measure (\<lambda>(env, img, f, pos, left, tot, st). left)") auto

declare copy_loop.simps [simp del]

text \<open>\<open>copy_img_slice(img, start, end, f)\<close>: seek to \<open>start\<close>, copy, return the count.\<close>

definition copy_img_slice ::
  "io_env \<Rightarrow> u8 list \<Rightarrow> nat \<Rightarrow> nat \<Rightarrow> path \<Rightarrow> io_state \<Rightarrow> nat \<times> io_state" where
  "copy_img_slice env img start stop f st =
     (let left = (if stop > start then stop - start else 0)
      in copy_loop env img f start left 0 st)"

text \<open>
  \<open>write_wrld\<close>: the return code, the log and the state afterwards. \<open>start\<close>, \<open>need\<close>
  and \<open>end\<close> are \<open>u64\<close> values below \<open>2^33\<close>. The header is the 32 bytes of the
  buffer at \<open>lvz_off\<close>; the scanner only returns offsets with 32 bytes in the buffer
  (reading further would be undefined in C; the model's header is then shorter and
  the write counts as failed).
\<close>

definition write_wrld ::
  "io_env \<Rightarrow> WrldHeader \<Rightarrow> u8 list \<Rightarrow> u8 list \<Rightarrow> nat \<Rightarrow> path \<Rightarrow> log \<Rightarrow> io_state
     \<Rightarrow> int \<times> log \<times> io_state" where
  "write_wrld env h decomp_lvz img img_size out_path lg st =
     (if \<not> fopen_wb_ok env out_path
      then (- 1, fprintf_log lg (ErrCannotWrite out_path), st)
      else
        let st0 = st\<lparr> files := (files st)(out_path \<mapsto> []) \<rparr>;
            (k, st1) = fwrite env out_path (take 32 (drop (unat (lvz_off h)) decomp_lvz)) st0
        in if k \<noteq> 32
           then (- 2, fprintf_log lg (ErrHeaderWrite out_path), st1)
           else
             let start = unat (continuation h);
                 need = (if total_size h \<ge> 32 then unat (total_size h) - 32 else 0);
                 stop = start + need
             in if start > img_size
                then (0, fprintf_log lg (WarnBeyond start img_size), st1)
                else
                  let lg1 = (if stop > img_size
                             then fprintf_log lg (WarnClipped stop img_size) else lg);
                      stop' = (if stop > img_size then img_size else stop);
                      (body, st2) = copy_img_slice env img start stop' out_path st1
                  in (0, fprintf_log lg1 (Build out_path body (32 + body) (total_size h)), st2))"


section \<open>The extraction driver\<close>

text \<open>
  The loop of \<open>main\<close> over the headers: the state is \<open>written\<close>, the log and the
  files. In \<open>main\<close> the log is never \<open>NULL\<close>.
\<close>

fun write_all ::
  "io_env \<Rightarrow> u8 list \<Rightarrow> u8 list \<Rightarrow> nat \<Rightarrow> nat \<Rightarrow> WrldHeader list \<Rightarrow> nat \<times> log \<times> io_state
     \<Rightarrow> nat \<times> log \<times> io_state" where
  "write_all env decomp img img_size i [] acc = acc"
| "write_all env decomp img img_size i (h # hs) (written, lg, st) =
     (case write_wrld env h decomp img img_size i lg st of (rc, lg', st') \<Rightarrow>
        write_all env decomp img img_size (i + 1) hs
          (if rc = 0 then (written + 1, lg', st')
           else (written, fprintf_log lg' (WarnFailed i rc), st')))"

text \<open>
  What \<open>main\<close> is run on: the argument count, whether the payload file and the log
  file can be found and opened, what reading the index file gives, the two libraries,
  the payload file and the file system. Allocation is assumed to succeed, and output
  to \<open>stderr\<close> is not modelled.
\<close>

datatype lvz_read = LvzOpenFails | LvzTellFails | LvzReadFails | LvzBytes "u8 list"

record 'z sys =
  argc :: nat
  img_exists :: bool
  log_opens :: bool
  lvz_file :: lvz_read
  zlib_lib :: "'z zlib"
  qsort_lib :: "WrldHeader list \<Rightarrow> WrldHeader list"
  img_file :: "u8 list option"
  io :: io_env

record main_result =
  exit_code :: int
  log_file :: log
  out_files :: "path \<rightharpoonup> u8 list"
  payload_reads :: "(nat \<times> nat) list"

definition finish :: "int \<Rightarrow> log \<Rightarrow> io_state \<Rightarrow> main_result" where
  "finish rc lg st =
     \<lparr> exit_code = rc, log_file = lg, out_files = files st, payload_reads = img_reads st \<rparr>"

definition io_start :: io_state where
  "io_start = \<lparr> files = Map.empty, img_reads = [] \<rparr>"

text \<open>
  \<open>main\<close>. The result is \<open>None\<close> when the decompression does not return. \<open>die\<close> is
  \<open>exit(1)\<close>. The scanner and the reconstructor read the first \<open>decomp_len\<close> bytes of
  the decompressed buffer only, so \<open>decomp\<close> is that prefix. \<open>LogPreamble\<close> stands for the
  five lines written when the log is opened, and the size of the payload file is the
  length of its contents.
\<close>

definition main :: "'z sys \<Rightarrow> main_result option" where
  "main s =
     (if argc s \<noteq> 2 then Some (finish 1 None io_start)
      else if \<not> img_exists s then Some (finish 2 None io_start)
      else if \<not> log_opens s then Some (finish 1 None io_start)
      else
        let lg0 = Some [LogPreamble] in
        case lvz_file s of
          LvzOpenFails \<Rightarrow> Some (finish 1 lg0 io_start)
        | LvzTellFails \<Rightarrow> Some (finish 1 lg0 io_start)
        | LvzReadFails \<Rightarrow> Some (finish 1 lg0 io_start)
        | LvzBytes lvz_raw \<Rightarrow>
            (case maybe_decompress_lvz (zlib_lib s) lvz_raw of
               None \<Rightarrow> None
             | Some (decomp_buf, decomp_len) \<Rightarrow>
                 let decomp = take decomp_len decomp_buf;
                     lg1 = fprintf_log lg0 (IoLvz (length lvz_raw) decomp_len)
                 in if decomp_len < 32
                    then Some (finish 3 (fprintf_log lg1 ErrTooSmall) io_start)
                    else
                      let lg2 = (if \<not> is_marker decomp 0
                                 then fprintf_log lg1 WarnNoMagic else lg1);
                          (headers, lg3) = scan_slave_headers (qsort_lib s) decomp lg2
                      in if length headers = 0
                         then Some (finish 4 (fprintf_log lg3 ErrNoHeaders) io_start)
                         else
                           (case img_file s of
                              None \<Rightarrow> Some (finish 5 (fprintf_log lg3 ErrCannotOpenImg) io_start)
                            | Some img \<Rightarrow>
                                let img_size = length img;
                                    lg4 = fprintf_log lg3 (IoImg img_size);
                                    (written, lg5, st) =
                                      write_all (io s) decomp img img_size 0 headers
                                        (0, lg4, io_start)
                                in Some (finish 0 (fprintf_log lg5 (Done written)) st))))"


section \<open>Properties of the scanner\<close>

text \<open>
  \<open>valid_at d j\<close>: position \<open>j\<close> holds the marker, 32 bytes remain from it, and the header
  read there passes the scanner's test \<open>total >= 32 && cont != 0\<close>.
\<close>

definition valid_at :: "u8 list \<Rightarrow> nat \<Rightarrow> bool" where
  "valid_at d j =
     (j + 32 \<le> length d \<and> is_marker d j \<and>
      total_size (header_at d j) \<ge> 32 \<and> continuation (header_at d j) \<noteq> 0)"

lemma find_marker_skips: "i \<le> k \<Longrightarrow> k < find_marker d i \<Longrightarrow> \<not> is_marker d k"
proof (induction d i rule: find_marker.induct)
  case (1 d j)
  show ?case
  proof (cases "j + 4 \<le> length d \<and> \<not> is_marker d j")
    case True
    then have eq: "find_marker d j = find_marker d (j + 1)"
      by (subst find_marker.simps) simp
    show ?thesis
    proof (cases "k = j")
      case True
      with \<open>j + 4 \<le> length d \<and> \<not> is_marker d j\<close> show ?thesis by simp
    next
      case False
      with "1.prems" eq True "1.IH" show ?thesis by simp
    qed
  next
    case False
    then have "find_marker d j = j"
      by (subst find_marker.simps) auto
    with "1.prems" show ?thesis by simp
  qed
qed

lemma find_marker_hit: "find_marker d i + 4 \<le> length d \<Longrightarrow> is_marker d (find_marker d i)"
proof (induction d i rule: find_marker.induct)
  case (1 d j)
  show ?case
  proof (cases "j + 4 \<le> length d")
    case True
    show ?thesis
    proof (cases "is_marker d j")
      case True
      with \<open>j + 4 \<le> length d\<close> have "find_marker d j = j"
        by (subst find_marker.simps) simp
      with True show ?thesis by simp
    next
      case False
      with True have eq: "find_marker d j = find_marker d (j + 1)"
        by (subst find_marker.simps) simp
      with "1.prems" "1.IH" True False show ?thesis by simp
    qed
  next
    case False
    then have "find_marker d j = j"
      by (subst find_marker.simps) simp
    with "1.prems" False show ?thesis by simp
  qed
qed

lemma marker_no_overlap:
  "is_marker d j \<Longrightarrow> \<not> is_marker d (j + 1) \<and> \<not> is_marker d (j + 2) \<and> \<not> is_marker d (j + 3)"
  by (auto simp: is_marker_def)

lemma filter_upt_empty: "(\<And>k. i \<le> k \<Longrightarrow> k < j \<Longrightarrow> \<not> P k) \<Longrightarrow> filter P [i..<j] = []"
  by (simp add: filter_empty_conv)

lemma filter_upt_split:
  "i \<le> j \<Longrightarrow> j \<le> n \<Longrightarrow> filter P [i..<n] = filter P [i..<j] @ filter P [j..<n]"
  by (metis filter_append le_Suc_ex upt_add_eq_append)

lemma sc_out_push: "sc_out (scan_push st h) = sc_out st @ [h]"
  by (simp add: scan_push_def Let_def)

lemma scan_loop_out:
  "sc_out (scan_loop d i st) = sc_out st @ map (header_at d) (filter (valid_at d) [i..<length d])"
proof (induction d i st rule: scan_loop.induct)
  case (1 d i st)
  define j where "j = find_marker d i"
  have ij: "i \<le> j" by (simp add: j_def find_marker_ge)
  have before: "filter (valid_at d) [i..<j] = []"
    by (rule filter_upt_empty) (auto simp: j_def valid_at_def dest: find_marker_skips)
  show ?case
  proof (cases "j + 32 > length d")
    case True
    have "filter (valid_at d) [i..<length d] = []"
    proof (rule filter_upt_empty)
      fix k assume "i \<le> k" "k < length d"
      show "\<not> valid_at d k"
      proof (cases "k < j")
        case True
        with \<open>i \<le> k\<close> show ?thesis
          by (auto simp: j_def valid_at_def dest: find_marker_skips)
      next
        case False
        with \<open>j + 32 > length d\<close> show ?thesis by (simp add: valid_at_def)
      qed
    qed
    moreover from True have "scan_loop d i st = st"
      by (subst scan_loop.simps) (simp add: j_def Let_def)
    ultimately show ?thesis by simp
  next
    case False
    then have jn: "j + 32 \<le> length d" by simp
    then have mk: "is_marker d j"
      using find_marker_hit [of d i] by (simp add: j_def)
    define h where "h = header_at d j"
    define st' where "st' = (if total_size h \<ge> 32 \<and> continuation h \<noteq> 0 then scan_push st h else st)"
    have step: "scan_loop d i st = scan_loop d (j + 4) st'"
      using False by (subst scan_loop.simps) (simp add: j_def Let_def h_def st'_def)
    have IH: "sc_out (scan_loop d (j + 4) st') =
                sc_out st' @ map (header_at d) (filter (valid_at d) [j + 4..<length d])"
      using "1.IH" [OF j_def] False unfolding h_def st'_def by simp
    have mid: "filter (valid_at d) [j + 1..<j + 4] = []"
    proof (rule filter_upt_empty)
      fix k assume "j + 1 \<le> k" "k < j + 4"
      then have "k = j + 1 \<or> k = j + 2 \<or> k = j + 3" by arith
      with marker_no_overlap [OF mk] show "\<not> valid_at d k"
        by (auto simp: valid_at_def)
    qed
    have "filter (valid_at d) [i..<length d] =
            filter (valid_at d) [i..<j] @ filter (valid_at d) [j..<length d]"
      using ij jn by (intro filter_upt_split) simp_all
    also have "filter (valid_at d) [j..<length d] =
            filter (valid_at d) [j..<j + 1] @ filter (valid_at d) [j + 1..<length d]"
      using jn by (intro filter_upt_split) simp_all
    also have "filter (valid_at d) [j + 1..<length d] =
            filter (valid_at d) [j + 1..<j + 4] @ filter (valid_at d) [j + 4..<length d]"
      using jn by (intro filter_upt_split) simp_all
    finally have split: "filter (valid_at d) [i..<length d] =
        (if valid_at d j then [j] else []) @ filter (valid_at d) [j + 4..<length d]"
      using before mid by simp
    have v: "valid_at d j \<longleftrightarrow> total_size h \<ge> 32 \<and> continuation h \<noteq> 0"
      using jn mk by (simp add: valid_at_def h_def)
    show ?thesis
      unfolding step IH split
      by (simp add: st'_def v sc_out_push h_def)
  qed
qed



subsection \<open>The duplicate-removal loop as a list function\<close>

text \<open>
  \<open>dd p xs\<close> drops every element whose offset equals the offset of the element kept
  last (\<open>p\<close>, \<open>None\<close> when nothing is kept yet). The loop on the array computes it.
\<close>

fun dd :: "u32 option \<Rightarrow> WrldHeader list \<Rightarrow> WrldHeader list" where
  "dd p [] = []"
| "dd p (x # xs) = (if p = Some (lvz_off x) then dd p xs else x # dd (Some (lvz_off x)) xs)"

lemma dedupe_loop_dd:
  "w \<le> r \<Longrightarrow> r \<le> length items \<Longrightarrow>
   (case dedupe_loop items r w of (items', w') \<Rightarrow> take w' items') =
     take w items @ dd (if w = 0 then None else Some (lvz_off (items ! (w - 1)))) (drop r items)"
proof (induction items r w rule: dedupe_loop.induct)
  case (1 items r w)
  show ?case
  proof (cases "r < length items")
    case False
    with "1.prems" show ?thesis
      by (subst dedupe_loop.simps) simp
  next
    case True
    note rlt = True
    have dr: "drop r items = items ! r # drop (r + 1) items"
      using rlt by (simp add: Cons_nth_drop_Suc)
    show ?thesis
    proof (cases "w = 0 \<or> lvz_off (items ! r) \<noteq> lvz_off (items ! (w - 1))")
      case True
      define items2 where "items2 = items[w := items ! r]"
      have step: "dedupe_loop items r w = dedupe_loop items2 (r + 1) (w + 1)"
        using rlt True by (subst dedupe_loop.simps) (auto simp: items2_def)
      have IH: "(case dedupe_loop items2 (r + 1) (w + 1) of (items', w') \<Rightarrow> take w' items') =
          take (w + 1) items2 @ dd (Some (lvz_off (items2 ! w))) (drop (r + 1) items2)"
        using "1.IH"(1) [OF rlt True] "1.prems" rlt by (simp add: items2_def)
      have a: "items2 ! w = items ! r"
        using "1.prems" rlt by (simp add: items2_def)
      have b: "take (w + 1) items2 = take w items @ [items ! r]"
        using "1.prems" rlt by (simp add: items2_def take_Suc_conv_app_nth)
      have c: "drop (r + 1) items2 = drop (r + 1) items"
        using "1.prems" by (simp add: items2_def)
      from True show ?thesis
        unfolding step IH a b c dr by auto
    next
      case False
      then have step: "dedupe_loop items r w = dedupe_loop items (r + 1) w"
        using rlt by (subst dedupe_loop.simps) auto
      have IH: "(case dedupe_loop items (r + 1) w of (items', w') \<Rightarrow> take w' items') =
          take w items @ dd (if w = 0 then None else Some (lvz_off (items ! (w - 1)))) (drop (r + 1) items)"
        using "1.IH"(2) [OF rlt False] "1.prems" rlt by simp
      from False show ?thesis
        unfolding step IH dr by auto
    qed
  qed
qed

lemma sort_dedupe_dd: "sort_dedupe qs out = dd None (qs out)"
  using dedupe_loop_dd [of 0 0 "qs out"] by (simp add: sort_dedupe_def)

lemma dd_subset: "set (dd p xs) \<subseteq> set xs"
  by (induction xs arbitrary: p) auto

lemma dd_keys: "lvz_off ` set xs \<subseteq> lvz_off ` set (dd p xs) \<union> set_option p"
proof (induction xs arbitrary: p)
  case Nil
  then show ?case by simp
next
  case (Cons x xs)
  show ?case
  proof (cases "p = Some (lvz_off x)")
    case True
    with Cons.IH [of p] show ?thesis by auto
  next
    case False
    with Cons.IH [of "Some (lvz_off x)"] show ?thesis by auto
  qed
qed

lemma dd_sorted:
  "sorted (map lvz_off xs) \<Longrightarrow> (\<And>k x. p = Some k \<Longrightarrow> x \<in> set xs \<Longrightarrow> k \<le> lvz_off x) \<Longrightarrow>
   sorted_wrt (<) (map lvz_off (dd p xs)) \<and>
   (\<forall>k y. p = Some k \<longrightarrow> y \<in> set (dd p xs) \<longrightarrow> k < lvz_off y)"
proof (induction xs arbitrary: p)
  case Nil
  then show ?case by simp
next
  case (Cons x xs)
  have s: "sorted (map lvz_off xs)" using Cons.prems(1) by simp
  show ?case
  proof (cases "p = Some (lvz_off x)")
    case True
    have "sorted_wrt (<) (map lvz_off (dd p xs)) \<and>
      (\<forall>k y. p = Some k \<longrightarrow> y \<in> set (dd p xs) \<longrightarrow> k < lvz_off y)"
      using Cons.prems by (intro Cons.IH s) auto
    with True show ?thesis by simp
  next
    case False
    have IH: "sorted_wrt (<) (map lvz_off (dd (Some (lvz_off x)) xs)) \<and>
      (\<forall>k y. Some (lvz_off x) = Some k \<longrightarrow> y \<in> set (dd (Some (lvz_off x)) xs) \<longrightarrow> k < lvz_off y)"
      using Cons.prems(1) by (intro Cons.IH s) auto
    have "\<And>k y. p = Some k \<Longrightarrow> y \<in> set (dd (Some (lvz_off x)) xs) \<Longrightarrow> k < lvz_off y"
    proof -
      fix k y assume "p = Some k" "y \<in> set (dd (Some (lvz_off x)) xs)"
      with IH have "lvz_off x < lvz_off y" by simp
      moreover from \<open>p = Some k\<close> Cons.prems(2) have "k \<le> lvz_off x" by simp
      ultimately show "k < lvz_off y" by simp
    qed
    moreover have "\<And>k. p = Some k \<Longrightarrow> k < lvz_off x"
      using False Cons.prems(2) by (simp add: order_less_le)
    ultimately show ?thesis using False IH by auto
  qed
qed

lemma dd_first:
  "sorted (map lvz_off xs) \<Longrightarrow> (\<And>k x. p = Some k \<Longrightarrow> x \<in> set xs \<Longrightarrow> k \<le> lvz_off x) \<Longrightarrow>
   h \<in> set (dd p xs) \<Longrightarrow> find (\<lambda>x. lvz_off x = lvz_off h) xs = Some h"
proof (induction xs arbitrary: p)
  case Nil
  then show ?case by simp
next
  case (Cons x xs)
  have s: "sorted (map lvz_off xs)" using Cons.prems(1) by simp
  show ?case
  proof (cases "p = Some (lvz_off x)")
    case True
    with Cons.prems(3) have h: "h \<in> set (dd p xs)" by simp
    have "lvz_off x < lvz_off h"
      using dd_sorted [OF s, of p] Cons.prems(2) h True by auto
    moreover have "find (\<lambda>x. lvz_off x = lvz_off h) xs = Some h"
      using Cons.prems(2) h by (intro Cons.IH [of p] s) auto
    ultimately show ?thesis by auto
  next
    case False
    with Cons.prems(3) have "h = x \<or> h \<in> set (dd (Some (lvz_off x)) xs)" by auto
    then show ?thesis
    proof
      assume "h = x" then show ?thesis by simp
    next
      assume h: "h \<in> set (dd (Some (lvz_off x)) xs)"
      have b: "\<And>k y. Some (lvz_off x) = Some k \<Longrightarrow> y \<in> set xs \<Longrightarrow> k \<le> lvz_off y"
        using Cons.prems(1) by auto
      have "lvz_off x < lvz_off h"
        using dd_sorted [OF s b] h by auto
      moreover have "find (\<lambda>x. lvz_off x = lvz_off h) xs = Some h"
        using h b by (intro Cons.IH [of "Some (lvz_off x)"] s) auto
      ultimately show ?thesis by auto
    qed
  qed
qed

lemma dd_id:
  "sorted_wrt (<) (map lvz_off xs) \<Longrightarrow> (\<And>k x. p = Some k \<Longrightarrow> x \<in> set xs \<Longrightarrow> k < lvz_off x) \<Longrightarrow>
   dd p xs = xs"
proof (induction xs arbitrary: p)
  case Nil
  then show ?case by simp
next
  case (Cons x xs)
  have "p \<noteq> Some (lvz_off x)" using Cons.prems(2) [of "lvz_off x" x] by auto
  moreover have "dd (Some (lvz_off x)) xs = xs"
    using Cons.prems(1) by (intro Cons.IH) auto
  ultimately show ?case by simp
qed

lemma cmp_le: "cmp_by_lvz_off a b \<le> 0 \<longleftrightarrow> lvz_off a \<le> lvz_off b"
  by (auto simp: cmp_by_lvz_off_def)

lemma qsort_contract_sorted: "qsort_contract qs \<Longrightarrow> sorted (map lvz_off (qs xs))"
  unfolding qsort_contract_def cmp_le sorted_map by blast

lemma qsort_contract_mset: "qsort_contract qs \<Longrightarrow> mset (qs xs) = mset xs"
  by (simp add: qsort_contract_def)

lemma qsort_model_contract: "qsort_contract qsort_model"
proof -
  have "sorted_wrt (\<lambda>a b. lvz_off a \<le> lvz_off b) (sort_key lvz_off xs)"
    for xs :: "WrldHeader list"
    using sorted_sort_key [of lvz_off xs] unfolding sorted_map .
  then show ?thesis
    unfolding qsort_contract_def qsort_model_def cmp_le by simp
qed

lemma sorted_perm_strict:
  assumes m: "mset ys = mset xs" and sy: "sorted (map lvz_off ys)"
    and sx: "sorted_wrt (<) (map lvz_off xs)"
  shows "ys = xs"
proof -
  have dx: "distinct (map lvz_off xs)" using sx by (simp add: strict_sorted_iff)
  have sx': "sorted (map lvz_off xs)" using sx by (simp add: strict_sorted_iff)
  have mm: "mset (map lvz_off ys) = mset (map lvz_off xs)" using m by simp
  have "sort (map lvz_off xs) = map lvz_off ys"
    using mm sy by (rule properties_for_sort)
  moreover have "sort (map lvz_off xs) = map lvz_off xs"
    using sx' by (simp add: sort_key_id_if_sorted)
  ultimately have eq: "map lvz_off xs = map lvz_off ys" by simp
  have "set ys = set xs" using m by (rule mset_eq_setD)
  moreover have "inj_on lvz_off (set xs)" using dx by (simp add: distinct_map)
  ultimately have "inj_on lvz_off (set xs \<union> set ys)" by simp
  with eq show ?thesis by (simp add: inj_on_map_eq_map)
qed

lemma sort_dedupe_strict:
  assumes "qsort_contract qs" and "sorted_wrt (<) (map lvz_off xs)"
  shows "sort_dedupe qs xs = xs"
proof -
  have "qs xs = xs"
    using assms by (intro sorted_perm_strict qsort_contract_mset qsort_contract_sorted)
  moreover have "dd None xs = xs"
    using assms(2) by (rule dd_id) simp
  ultimately show ?thesis by (simp add: sort_dedupe_dd)
qed


subsection \<open>What the scanner returns\<close>


lemma sort_dedupe_subset: "qsort_contract qs \<Longrightarrow> set (sort_dedupe qs xs) \<subseteq> set xs"
  using dd_subset [of None "qs xs"] mset_eq_setD [OF qsort_contract_mset [of qs xs]]
  by (simp add: sort_dedupe_dd)

lemma sort_dedupe_offsets:
  assumes "qsort_contract qs"
  shows "lvz_off ` set (sort_dedupe qs xs) = lvz_off ` set xs"
proof -
  have s: "set (qs xs) = set xs"
    using assms by (intro mset_eq_setD qsort_contract_mset)
  have "lvz_off ` set (qs xs) \<subseteq> lvz_off ` set (dd None (qs xs))"
    using dd_keys [of "qs xs" None] by simp
  moreover have "set (dd None (qs xs)) \<subseteq> set (qs xs)" by (rule dd_subset)
  ultimately show ?thesis unfolding sort_dedupe_dd s by blast
qed

lemma sort_dedupe_strict_sorted:
  assumes "qsort_contract qs"
  shows "sorted_wrt (<) (map lvz_off (sort_dedupe qs xs))"
  using dd_sorted [OF qsort_contract_sorted [OF assms, of xs], of None]
  by (simp add: sort_dedupe_dd)

lemma sort_dedupe_first:
  assumes "qsort_contract qs" and "h \<in> set (sort_dedupe qs xs)"
  shows "find (\<lambda>x. lvz_off x = lvz_off h) (qs xs) = Some h"
  using dd_first [OF qsort_contract_sorted [OF assms(1), of xs], of None h] assms(2)
  by (simp add: sort_dedupe_dd)

lemma scan_pushed:
  "sc_out (scan_loop d 0 \<lparr> sc_out = [], sc_hits = 0, sc_log = lg \<rparr>) =
     map (header_at d) (filter (valid_at d) [0..<length d])"
  by (simp add: scan_loop_out)

lemma lvz_off_header_at: "lvz_off (header_at d j) = of_nat j"
  by (simp add: header_at_def)

lemma of_nat_u32_less: "a < b \<Longrightarrow> b < 2 ^ 32 \<Longrightarrow> (of_nat a :: u32) < of_nat b"
  by (simp add: word_less_nat_alt unat_of_nat)

lemma unat_of_nat_u32: "j < 2 ^ 32 \<Longrightarrow> unat (of_nat j :: u32) = j"
  by (simp add: unat_of_nat)

lemma valid_positions_sorted:
  assumes "length d < 2 ^ 32 + 32"
  shows "sorted_wrt (<) (map lvz_off (map (header_at d) (filter (valid_at d) [0..<length d])))"
proof -
  let ?js = "filter (valid_at d) [0..<length d]"
  have small: "j < 2 ^ 32" if "j \<in> set ?js" for j
    using that assms by (auto simp: valid_at_def)
  have "sorted_wrt (<) ?js"
    by (intro sorted_wrt_filter) simp
  then have "sorted_wrt (\<lambda>a b. (of_nat a :: u32) < of_nat b) ?js"
    by (rule sorted_wrt_mono_rel [rotated]) (use small in \<open>auto intro: of_nat_u32_less\<close>)
  then show ?thesis
    by (simp add: sorted_wrt_map lvz_off_header_at comp_def)
qed

lemma scan_headers_small:
  assumes "qsort_contract qs" and "length d < 2 ^ 32 + 32"
  shows "fst (scan_slave_headers qs d lg) =
           map (header_at d) (filter (valid_at d) [0..<length d])"
  using sort_dedupe_strict [OF assms(1) valid_positions_sorted [OF assms(2)]]
  by (simp add: scan_slave_headers_def Let_def scan_pushed)

lemma scan_headers_offsets:
  assumes "qsort_contract qs"
  shows "lvz_off ` set (fst (scan_slave_headers qs d lg)) = of_nat ` {j. valid_at d j}"
proof -
  have "{j. valid_at d j} = set (filter (valid_at d) [0..<length d])"
    by (auto simp: valid_at_def)
  then show ?thesis
    using sort_dedupe_offsets [OF assms]
    by (simp add: scan_slave_headers_def Let_def scan_pushed image_image lvz_off_header_at)
qed




section \<open>Concrete buffers\<close>

text \<open>
  \<open>overlap_buf\<close> (36 bytes) holds a valid header at offset 0 whose type field is again
  the marker, starting a second valid header at offset 4. \<open>good_header\<close> is one valid
  header (\<open>total_size = 32\<close>, \<open>continuation = 1\<close>), \<open>bad_header\<close> is the marker followed
  by zero fields. \<open>far_buf\<close> and \<open>zero_far_buf\<close> are buffers of \<open>2^32 + 32\<close> bytes with a valid
  header at position \<open>2^32\<close>.
\<close>

definition overlap_buf :: "u8 list" where
  "overlap_buf =
     [0x44, 0x4C, 0x52, 0x57,  0x44, 0x4C, 0x52, 0x57,  0x20, 0, 0, 0,  0x20, 0, 0, 0,
      0, 0, 0, 0,  0, 0, 0, 0,  1, 0, 0, 0,  1, 0, 0, 0,  0, 0, 0, 0]"

definition good_header :: "u8 list" where
  "good_header =
     [0x44, 0x4C, 0x52, 0x57,  0, 0, 0, 0,  0x20, 0, 0, 0,  0, 0, 0, 0,
      0, 0, 0, 0,  0, 0, 0, 0,  1, 0, 0, 0,  0, 0, 0, 0]"

definition bad_header :: "u8 list" where
  "bad_header =
     [0x44, 0x4C, 0x52, 0x57,  0, 0, 0, 0,  0, 0, 0, 0,  0, 0, 0, 0,
      0, 0, 0, 0,  0, 0, 0, 0,  0, 0, 0, 0,  0, 0, 0, 0]"

definition far_buf :: "u8 list" where
  "far_buf = bad_header @ replicate (2 ^ 32 - 32) 0 @ good_header"

definition zero_far_buf :: "u8 list" where
  "zero_far_buf = replicate (2 ^ 32) 0 @ good_header"

section \<open>Claims about the scanner\<close>

lemma valid_at_iff:
  "j + 4 \<le> length d \<Longrightarrow> is_marker d j \<Longrightarrow>
   valid_at d j \<longleftrightarrow>
     (j + 32 \<le> length d \<and> 32 \<le> read_u32le d (j + 0x08) \<and> read_u32le d (j + 0x18) \<noteq> 0)"
  by (simp add: valid_at_def header_at_def)

text \<open>
  Claim C1, as amended. For every buffer shorter than \<open>2^32 + 32\<close> bytes and every
  position \<open>j\<close> where the marker \<open>'D','L','R','W'\<close> stands, the scanner's output holds a
  header with offset \<open>j\<close> if and only if \<open>j + 32 \<le> length d\<close>, the u32 at \<open>j + 0x08\<close> is at
  least 32 and the u32 at \<open>j + 0x18\<close> is not zero.
\<close>

theorem scan_header_iff:
  assumes "qsort_contract qs" and "length d < 2 ^ 32 + 32"
    and "j + 4 \<le> length d" and "is_marker d j"
  shows "(\<exists>h \<in> set (fst (scan_slave_headers qs d lg)). unat (lvz_off h) = j) \<longleftrightarrow>
           (j + 32 \<le> length d \<and> 32 \<le> read_u32le d (j + 0x08) \<and> read_u32le d (j + 0x18) \<noteq> 0)"
proof -
  have out: "fst (scan_slave_headers qs d lg) =
      map (header_at d) (filter (valid_at d) [0..<length d])"
    using assms(1,2) by (rule scan_headers_small)
  have small: "k < 2 ^ 32" if "valid_at d k" for k
    using that assms(2) by (simp add: valid_at_def)
  have js: "set (filter (valid_at d) [0..<length d]) = {k. valid_at d k}"
    by (auto simp: valid_at_def)
  have "(\<exists>h \<in> set (fst (scan_slave_headers qs d lg)). unat (lvz_off h) = j) \<longleftrightarrow>
        (\<exists>k. valid_at d k \<and> unat (of_nat k :: u32) = j)"
    unfolding out set_map js by (auto simp: lvz_off_header_at)
  also have "\<dots> \<longleftrightarrow> valid_at d j"
    using small by (auto simp: unat_of_nat_u32)
  also have "\<dots> \<longleftrightarrow>
      (j + 32 \<le> length d \<and> 32 \<le> read_u32le d (j + 0x08) \<and> read_u32le d (j + 0x18) \<noteq> 0)"
    using assms(3,4) by (rule valid_at_iff)
  finally show ?thesis .
qed

text \<open>
  Without the bound the claim fails: the offset is stored as \<open>(uint32_t)j\<close>, so the valid
  header at position \<open>2^32\<close> of \<open>far_buf\<close> is recorded with offset 0, where the marker
  stands with \<open>total_size = 0\<close>.
\<close>

lemma bad_header_length: "length bad_header = 32"
  by (simp add: bad_header_def)

lemma good_header_length: "length good_header = 32"
  by (simp add: good_header_def)

lemma far_buf_length: "length far_buf = 2 ^ 32 + 32"
  by (simp add: far_buf_def bad_header_length good_header_length)

lemma far_buf_low: "k < 32 \<Longrightarrow> far_buf ! k = bad_header ! k"
  by (simp add: far_buf_def nth_append bad_header_length)

lemma far_buf_high: "k < 32 \<Longrightarrow> far_buf ! (2 ^ 32 + k) = good_header ! k"
  by (simp add: far_buf_def nth_append bad_header_length)

lemma far_buf_marker_0: "is_marker far_buf 0"
  using far_buf_low [of 0] far_buf_low [of 1] far_buf_low [of 2] far_buf_low [of 3]
  by (simp add: is_marker_def bad_header_def numeral_2_eq_2)

lemma far_buf_total_0: "read_u32le far_buf (0 + 0x08) = 0"
  using far_buf_low [of 8] far_buf_low [of 9] far_buf_low [of 10] far_buf_low [of 11]
  by (simp add: read_u32le_def bad_header_def)

lemma far_buf_valid: "valid_at far_buf (2 ^ 32)"
  using far_buf_high [of 0] far_buf_high [of 1] far_buf_high [of 2] far_buf_high [of 3]
    far_buf_high [of 8] far_buf_high [of 9] far_buf_high [of 10] far_buf_high [of 11]
    far_buf_high [of 24] far_buf_high [of 25] far_buf_high [of 26] far_buf_high [of 27]
  by (simp add: valid_at_def is_marker_def header_at_def read_u32le_def far_buf_length
      good_header_def)

theorem scan_header_iff_counterexample:
  "is_marker far_buf 0 \<and> 0 + 4 \<le> length far_buf \<and>
   (\<exists>h \<in> set (fst (scan_slave_headers qsort_model far_buf None)). unat (lvz_off h) = 0) \<and>
   \<not> 32 \<le> read_u32le far_buf (0 + 0x08)"
proof -
  have "(of_nat (2 ^ 32) :: u32) \<in> lvz_off ` set (fst (scan_slave_headers qsort_model far_buf None))"
    unfolding scan_headers_offsets [OF qsort_model_contract]
    using far_buf_valid by blast
  then obtain h where h: "h \<in> set (fst (scan_slave_headers qsort_model far_buf None))"
    and "lvz_off h = (of_nat (2 ^ 32) :: u32)"
    by auto
  then have "unat (lvz_off h) = 0" by simp
  with h have "\<exists>h \<in> set (fst (scan_slave_headers qsort_model far_buf None)). unat (lvz_off h) = 0"
    by blast
  then show ?thesis
    using far_buf_marker_0 far_buf_total_0 by (simp add: far_buf_length)
qed


theorem scan_header_iff_witness:
  "qsort_contract qsort_model \<and> length good_header < 2 ^ 32 + 32 \<and>
   0 + 4 \<le> length good_header \<and> is_marker good_header 0 \<and>
   (\<exists>h \<in> set (fst (scan_slave_headers qsort_model good_header None)). unat (lvz_off h) = 0) \<and>
   0 + 4 \<le> length bad_header \<and> is_marker bad_header 0 \<and>
   \<not> (\<exists>h \<in> set (fst (scan_slave_headers qsort_model bad_header None)). unat (lvz_off h) = 0)"
proof -
  have g: "length good_header < 2 ^ 32 + 32" "0 + 4 \<le> length good_header" "is_marker good_header 0"
    by (simp_all add: good_header_def is_marker_def)
  have b: "length bad_header < 2 ^ 32 + 32" "0 + 4 \<le> length bad_header" "is_marker bad_header 0"
    by (simp_all add: bad_header_def is_marker_def)
  have gv: "0 + 32 \<le> length good_header \<and> 32 \<le> read_u32le good_header (0 + 0x08) \<and>
      read_u32le good_header (0 + 0x18) \<noteq> 0"
    by (simp add: good_header_def read_u32le_def)
  have bv: "\<not> 32 \<le> read_u32le bad_header (0 + 0x08)"
    by (simp add: bad_header_def read_u32le_def)
  show ?thesis
    using scan_header_iff [OF qsort_model_contract g, of None]
      scan_header_iff [OF qsort_model_contract b, of None] g b gv bv qsort_model_contract
    by simp
qed



section \<open>The invariant of the scanner's output\<close>

lemma filter_upt_single:
  assumes "\<And>j. P j \<longleftrightarrow> j = k" and "k < n"
  shows "filter P [0..<n] = [k]"
proof -
  have "[0..<n] = [0..<k] @ k # [Suc k..<n]"
    using assms(2) by (metis le_add2 le_add_same_cancel2 upt_conv_Cons upt_add_eq_append less_imp_add_positive less_or_eq_imp_le)
  then show ?thesis by (simp add: assms(1))
qed

text \<open>
  Claim C9, as amended. For every buffer shorter than \<open>2^32 + 32\<close> bytes, every header
  \<open>h\<close> of the scanner's output has 32 bytes of the buffer from \<open>lvz_off h\<close> on, the four
  bytes there are \<open>'D','L','R','W'\<close>, \<open>total_size h \<ge> 32\<close>, \<open>continuation h \<noteq> 0\<close>, and each of
  the seven other fields is the little-endian u32 of the buffer at \<open>lvz_off h\<close> plus
  \<open>0x04, 0x08, 0x0C, 0x10, 0x14, 0x18, 0x1C\<close>.
\<close>

theorem scan_output_invariant:
  assumes "qsort_contract qs" and "length d < 2 ^ 32 + 32"
    and "h \<in> set (fst (scan_slave_headers qs d lg))"
  shows "unat (lvz_off h) + 32 \<le> length d \<and>
         d ! unat (lvz_off h) = 0x44 \<and> d ! (unat (lvz_off h) + 1) = 0x4C \<and>
         d ! (unat (lvz_off h) + 2) = 0x52 \<and> d ! (unat (lvz_off h) + 3) = 0x57 \<and>
         32 \<le> total_size h \<and> continuation h \<noteq> 0 \<and>
         wrld_type h = read_u32le d (unat (lvz_off h) + 0x04) \<and>
         total_size h = read_u32le d (unat (lvz_off h) + 0x08) \<and>
         global0 h = read_u32le d (unat (lvz_off h) + 0x0C) \<and>
         global1 h = read_u32le d (unat (lvz_off h) + 0x10) \<and>
         global_count h = read_u32le d (unat (lvz_off h) + 0x14) \<and>
         continuation h = read_u32le d (unat (lvz_off h) + 0x18) \<and>
         reserved h = read_u32le d (unat (lvz_off h) + 0x1C)"
proof -
  have "h \<in> set (map (header_at d) (filter (valid_at d) [0..<length d]))"
    using assms(3) unfolding scan_headers_small [OF assms(1,2)] .
  then obtain j where v: "valid_at d j" and h: "h = header_at d j"
    by auto
  from v assms(2) have "j < 2 ^ 32" by (simp add: valid_at_def)
  then have off: "unat (lvz_off h) = j"
    by (simp add: h lvz_off_header_at unat_of_nat_u32)
  from v have "j + 32 \<le> length d" "is_marker d j"
    "32 \<le> total_size (header_at d j)" "continuation (header_at d j) \<noteq> 0"
    by (simp_all add: valid_at_def)
  then show ?thesis
    unfolding off by (simp add: h is_marker_def header_at_def)
qed

theorem scan_output_invariant_witness:
  "qsort_contract qsort_model \<and> length overlap_buf < 2 ^ 32 + 32 \<and>
   header_at overlap_buf 4 \<in> set (fst (scan_slave_headers qsort_model overlap_buf None)) \<and>
   unat (lvz_off (header_at overlap_buf 4)) = 4 \<and>
   overlap_buf ! 4 = 0x44 \<and> total_size (header_at overlap_buf 4) = 32 \<and>
   total_size (header_at overlap_buf 4) = read_u32le overlap_buf (4 + 0x08)"
proof -
  have len: "length overlap_buf < 2 ^ 32 + 32" by (simp add: overlap_buf_def)
  have v: "valid_at overlap_buf 4"
    by (simp add: valid_at_def overlap_buf_def is_marker_def header_at_def read_u32le_def)
  have "valid_at overlap_buf 4 \<and> 4 < length overlap_buf" using v by (simp add: overlap_buf_def)
  then have mem: "header_at overlap_buf 4 \<in> set (fst (scan_slave_headers qsort_model overlap_buf None))"
    unfolding scan_headers_small [OF qsort_model_contract len] by simp
  have off: "unat (lvz_off (header_at overlap_buf 4)) = 4"
    by (simp add: lvz_off_header_at)
  have t: "total_size (header_at overlap_buf 4) = 32"
    by (simp add: overlap_buf_def header_at_def read_u32le_def)
  show ?thesis
    using scan_output_invariant [OF qsort_model_contract len mem] mem len off t
      qsort_model_contract
    by simp
qed

text \<open>
  Without the bound the invariant fails: \<open>zero_far_buf\<close> is \<open>2^32\<close> zero bytes followed by
  one valid header. The scanner returns that header with \<open>lvz_off = (uint32_t)2^32 = 0\<close>,
  and the byte at offset 0 is not \<open>'D'\<close>.
\<close>

lemma zero_far_buf_length: "length zero_far_buf = 2 ^ 32 + 32"
  by (simp add: zero_far_buf_def good_header_length)

lemma zero_far_buf_high: "k < 32 \<Longrightarrow> zero_far_buf ! (2 ^ 32 + k) = good_header ! k"
  by (simp add: zero_far_buf_def nth_append)

lemma zero_far_buf_valid: "valid_at zero_far_buf (2 ^ 32)"
  using zero_far_buf_high [of 0] zero_far_buf_high [of 1] zero_far_buf_high [of 2]
    zero_far_buf_high [of 3] zero_far_buf_high [of 8] zero_far_buf_high [of 9]
    zero_far_buf_high [of 10] zero_far_buf_high [of 11] zero_far_buf_high [of 24]
    zero_far_buf_high [of 25] zero_far_buf_high [of 26] zero_far_buf_high [of 27]
  by (simp add: valid_at_def is_marker_def header_at_def read_u32le_def zero_far_buf_length
      good_header_def)

lemma zero_far_buf_only: "valid_at zero_far_buf j \<Longrightarrow> j = 2 ^ 32"
proof (rule ccontr)
  assume v: "valid_at zero_far_buf j" and ne: "j \<noteq> 2 ^ 32"
  from v have "j + 32 \<le> 2 ^ 32 + 32" by (simp add: valid_at_def zero_far_buf_length)
  with ne have "j < 2 ^ 32" by simp
  then have "zero_far_buf ! j = 0" by (simp add: zero_far_buf_def nth_append)
  with v show False by (simp add: valid_at_def is_marker_def)
qed


lemma zero_far_buf_positions: "filter (valid_at zero_far_buf) [0..<length zero_far_buf] = [2 ^ 32]"
proof (rule filter_upt_single)
  show "valid_at zero_far_buf j \<longleftrightarrow> j = 2 ^ 32" for j
    using zero_far_buf_only [of j] zero_far_buf_valid by blast
  show "2 ^ 32 < length zero_far_buf"
    unfolding zero_far_buf_length by simp
qed

lemma zero_far_buf_pushed: "sc_out (scan_loop zero_far_buf 0 \<lparr> sc_out = [], sc_hits = 0, sc_log = None \<rparr>) =
      [header_at zero_far_buf (2 ^ 32)]"
    using zero_far_buf_positions by (simp add: scan_pushed)

lemma zero_far_buf_sort_dedupe: "sort_dedupe qsort_model [header_at zero_far_buf (2 ^ 32)] = [header_at zero_far_buf (2 ^ 32)]"
    by (rule sort_dedupe_strict [OF qsort_model_contract]) simp

lemma zero_far_buf_scan: "fst (scan_slave_headers qsort_model zero_far_buf None) = [header_at zero_far_buf (2 ^ 32)]"
    using zero_far_buf_sort_dedupe by (simp add: scan_slave_headers_def Let_def zero_far_buf_pushed)

lemma zero_far_buf_first_byte:  "zero_far_buf ! 0 = 0" by (simp add: zero_far_buf_def nth_append)

theorem scan_output_invariant_counterexample: "fst (scan_slave_headers qsort_model zero_far_buf None) = [header_at zero_far_buf (2 ^ 32)] \<and>
   unat (lvz_off (header_at zero_far_buf (2 ^ 32))) = 0 \<and>
   zero_far_buf ! 0 \<noteq> 0x44"
  using zero_far_buf_scan zero_far_buf_first_byte by (simp add: lvz_off_header_at)




section \<open>Overlapping headers\<close>

text \<open>A header with a given offset and type, for concrete header lists.\<close>

definition hdr :: "u32 \<Rightarrow> u32 \<Rightarrow> WrldHeader" where
  "hdr off ty =
     \<lparr> lvz_off = off, wrld_type = ty, total_size = 32, global0 = 0, global1 = 0,
       global_count = 0, continuation = 1, reserved = 0 \<rparr>"

lemma valid_at_pushed:
  "valid_at d k \<Longrightarrow> i \<le> k \<Longrightarrow> header_at d k \<in> set (sc_out (scan_loop d i st))"
proof -
  assume v: "valid_at d k" and "i \<le> k"
  then have "k \<in> set (filter (valid_at d) [i..<length d])"
    by (simp add: valid_at_def)
  then show ?thesis
    unfolding scan_loop_out by (simp del: set_filter)
qed

lemma scan_loop_step:
  assumes "valid_at d j" and "find_marker d i = j"
  shows "scan_loop d i st = scan_loop d (j + 4) (scan_push st (header_at d j))"
  using assms by (subst scan_loop.simps) (simp add: valid_at_def Let_def)

text \<open>
  Claim C10. Let \<open>j\<close> and \<open>k\<close> be positions of valid headers with \<open>j + 4 \<le> k < j + 32\<close>, so
  that the second header starts inside the 32 bytes of the first. After the match at
  \<open>j\<close> the loop goes on at \<open>j + 4\<close> with the header of \<open>j\<close> pushed; the run from \<open>j + 4\<close>
  collects the header of \<open>k\<close>; the whole scan collects both; and for a buffer shorter
  than \<open>2^32 + 32\<close> bytes both are in the final collection, with offsets less than 32
  apart, so their 32-byte regions overlap.
\<close>

theorem scan_resumes_after_four:
  assumes "valid_at d j" and "valid_at d k" and "j + 4 \<le> k" and "k < j + 32"
  shows "(find_marker d i = j \<longrightarrow>
            scan_loop d i st = scan_loop d (j + 4) (scan_push st (header_at d j))) \<and>
         header_at d k \<in> set (sc_out (scan_loop d (j + 4) st')) \<and>
         header_at d j \<in> set (sc_out (scan_loop d 0 st)) \<and>
         header_at d k \<in> set (sc_out (scan_loop d 0 st)) \<and>
         (qsort_contract qs \<longrightarrow> length d < 2 ^ 32 + 32 \<longrightarrow>
            header_at d j \<in> set (fst (scan_slave_headers qs d lg)) \<and>
            header_at d k \<in> set (fst (scan_slave_headers qs d lg)) \<and>
            unat (lvz_off (header_at d j)) < unat (lvz_off (header_at d k)) \<and>
            unat (lvz_off (header_at d k)) < unat (lvz_off (header_at d j)) + 32)"
proof -
  have a: "find_marker d i = j \<longrightarrow>
      scan_loop d i st = scan_loop d (j + 4) (scan_push st (header_at d j))"
    using assms(1) by (simp add: scan_loop_step)
  have b: "header_at d k \<in> set (sc_out (scan_loop d (j + 4) st'))"
    using assms(2,3) by (rule valid_at_pushed)
  have c: "header_at d j \<in> set (sc_out (scan_loop d 0 st))"
    "header_at d k \<in> set (sc_out (scan_loop d 0 st))"
    using assms(1,2) by (simp_all add: valid_at_pushed)
  have e: "header_at d j \<in> set (fst (scan_slave_headers qs d lg)) \<and>
      header_at d k \<in> set (fst (scan_slave_headers qs d lg)) \<and>
      unat (lvz_off (header_at d j)) < unat (lvz_off (header_at d k)) \<and>
      unat (lvz_off (header_at d k)) < unat (lvz_off (header_at d j)) + 32"
    if q: "qsort_contract qs" and len: "length d < 2 ^ 32 + 32"
  proof -
    have js: "set (filter (valid_at d) [0..<length d]) = {k. valid_at d k}"
      by (auto simp: valid_at_def)
    have "j < 2 ^ 32" "k < 2 ^ 32"
      using assms(1,2) len by (simp_all add: valid_at_def)
    then have "unat (lvz_off (header_at d j)) = j" "unat (lvz_off (header_at d k)) = k"
      by (simp_all add: lvz_off_header_at unat_of_nat_u32)
    moreover have "header_at d j \<in> set (fst (scan_slave_headers qs d lg))"
      "header_at d k \<in> set (fst (scan_slave_headers qs d lg))"
      unfolding scan_headers_small [OF q len] set_map js using assms(1,2) by blast+
    ultimately show ?thesis using assms(3,4) by simp
  qed
  from a b c e show ?thesis by blast
qed

theorem scan_resumes_after_four_witness:
  "valid_at overlap_buf 0 \<and> valid_at overlap_buf 4 \<and> find_marker overlap_buf 0 = 0 \<and>
   qsort_contract qsort_model \<and> length overlap_buf < 2 ^ 32 + 32 \<and>
   header_at overlap_buf 0 \<in> set (fst (scan_slave_headers qsort_model overlap_buf None)) \<and>
   header_at overlap_buf 4 \<in> set (fst (scan_slave_headers qsort_model overlap_buf None)) \<and>
   lvz_off (header_at overlap_buf 0) = 0 \<and> lvz_off (header_at overlap_buf 4) = 4 \<and>
   scan_loop overlap_buf 0 \<lparr> sc_out = [], sc_hits = 0, sc_log = None \<rparr> =
     scan_loop overlap_buf (0 + 4)
       (scan_push \<lparr> sc_out = [], sc_hits = 0, sc_log = None \<rparr> (header_at overlap_buf 0))"
proof -
  have v0: "valid_at overlap_buf 0"
    by (simp add: valid_at_def overlap_buf_def is_marker_def header_at_def read_u32le_def)
  have v4: "valid_at overlap_buf 4"
    by (simp add: valid_at_def overlap_buf_def is_marker_def header_at_def read_u32le_def)
  have f: "find_marker overlap_buf 0 = 0"
    by (subst find_marker.simps) (simp add: overlap_buf_def is_marker_def)
  have len: "length overlap_buf < 2 ^ 32 + 32" by (simp add: overlap_buf_def)
  have "(0::nat) + 4 \<le> 4" "(4::nat) < 0 + 32" by simp_all
  from scan_resumes_after_four [OF v0 v4 this, of 0 "\<lparr> sc_out = [], sc_hits = 0, sc_log = None \<rparr>"
      _ qsort_model None]
  show ?thesis
    using v0 v4 f len qsort_model_contract by (simp add: lvz_off_header_at)
qed

section \<open>Sorting and removing duplicates: the result\<close>

lemma find_filter: "find P xs = (case filter P xs of [] \<Rightarrow> None | x # _ \<Rightarrow> Some x)"
  by (induction xs) auto

text \<open>
  With a stable \<open>qsort\<close> the header kept for an offset is the first one of the input
  with that offset.
\<close>

lemma sort_dedupe_stable_first:
  assumes "h \<in> set (sort_dedupe qsort_model hs)"
  shows "find (\<lambda>x. lvz_off x = lvz_off h) hs = Some h"
proof -
  have "find (\<lambda>x. lvz_off x = lvz_off h) (qsort_model hs) = Some h"
    using qsort_model_contract assms by (rule sort_dedupe_first)
  moreover have "find (\<lambda>x. lvz_off x = k) (sort_key lvz_off hs) = find (\<lambda>x. lvz_off x = k) hs"
    for k
    by (simp add: find_filter sort_key_stable)
  ultimately show ?thesis by (simp add: qsort_model_def)
qed

text \<open>
  Claim C4. For every list of headers and every \<open>qsort\<close> that meets its contract, the
  result of sorting and removing duplicates is strictly ascending by \<open>lvz_off\<close>, so each
  offset occurs once; its offsets are exactly the offsets of the input and its headers
  are headers of the input; each header kept is the first one with its offset in
  the sorted array; and input offsets \<open>5, 5, 3, 9\<close> give \<open>3, 5, 9\<close>.
\<close>

theorem sort_dedupe_sorted_unique:
  fixes hs :: "WrldHeader list"
  assumes "qsort_contract qs"
  shows "sorted_wrt (<) (map lvz_off (sort_dedupe qs hs)) \<and>
         distinct (map lvz_off (sort_dedupe qs hs)) \<and>
         lvz_off ` set (sort_dedupe qs hs) = lvz_off ` set hs \<and>
         set (sort_dedupe qs hs) \<subseteq> set hs \<and>
         (\<forall>h \<in> set (sort_dedupe qs hs). find (\<lambda>x. lvz_off x = lvz_off h) (qs hs) = Some h) \<and>
         (map lvz_off hs = [5, 5, 3, 9] \<longrightarrow> map lvz_off (sort_dedupe qs hs) = [3, 5, 9])"
proof -
  let ?r = "sort_dedupe qs hs"
  have s: "sorted_wrt (<) (map lvz_off ?r)"
    using assms by (rule sort_dedupe_strict_sorted)
  then have d: "distinct (map lvz_off ?r)" and s': "sorted (map lvz_off ?r)"
    by (simp_all add: strict_sorted_iff)
  have k: "lvz_off ` set ?r = lvz_off ` set hs"
    using assms by (rule sort_dedupe_offsets)
  have sub: "set ?r \<subseteq> set hs"
    using assms by (rule sort_dedupe_subset)
  have f: "\<forall>h \<in> set ?r. find (\<lambda>x. lvz_off x = lvz_off h) (qs hs) = Some h"
    using assms by (simp add: sort_dedupe_first)
  have ex: "map lvz_off ?r = [3, 5, 9]" if "map lvz_off hs = [5, 5, 3, 9]"
  proof (rule sorted_distinct_set_unique [OF s' d])
    show "sorted [3, 5, 9 :: u32]" by simp
    show "distinct [3, 5, 9 :: u32]" by simp
    have "set (map lvz_off ?r) = set (map lvz_off hs)" using k by simp
    also have "\<dots> = set [5, 5, 3, 9]" using that by simp
    finally show "set (map lvz_off ?r) = set [3, 5, 9]" by auto
  qed
  from s d k sub f ex show ?thesis by blast
qed

theorem sort_dedupe_sorted_unique_witness:
  "qsort_contract qsort_model \<and>
   sort_dedupe qsort_model [hdr 5 1, hdr 5 2, hdr 3 3, hdr 9 4] = [hdr 3 3, hdr 5 1, hdr 9 4] \<and>
   map lvz_off (sort_dedupe qsort_model [hdr 5 1, hdr 5 2, hdr 3 3, hdr 9 4]) = [3, 5, 9] \<and>
   sorted_wrt (<) (map lvz_off (sort_dedupe qsort_model [hdr 5 1, hdr 5 2, hdr 3 3, hdr 9 4]))"
proof -
  have q: "qsort_model [hdr 5 1, hdr 5 2, hdr 3 3, hdr 9 4] = [hdr 3 3, hdr 5 1, hdr 5 2, hdr 9 4]"
    by (simp add: qsort_model_def hdr_def)
  have e: "sort_dedupe qsort_model [hdr 5 1, hdr 5 2, hdr 3 3, hdr 9 4] = [hdr 3 3, hdr 5 1, hdr 9 4]"
    unfolding sort_dedupe_dd q by (simp add: hdr_def)
  have m: "map lvz_off [hdr 5 1, hdr 5 2, hdr 3 3, hdr 9 4] = [5, 5, 3, 9]"
    by (simp add: hdr_def)
  from sort_dedupe_sorted_unique [OF qsort_model_contract, of "[hdr 5 1, hdr 5 2, hdr 3 3, hdr 9 4]"]
  show ?thesis using qsort_model_contract e m by simp
qed

section \<open>Claims about the decompression resolver\<close>

text \<open>
  Three decoders for concrete runs: \<open>zl_fail\<close> fails on every framing (a decode error for
  zlib and gzip, an initialisation error for raw DEFLATE), \<open>zl_end\<close> reports the end of
  the stream at once, and \<open>zl_grow\<close> first fills the space offered and then stores one
  more byte and ends.
\<close>

definition zl_fail :: "unit zlib" where
  "zl_fail = \<lparr> inflateInit2 = (\<lambda>wb. if wb = - 15 then None else Some ()),
               inflate = (\<lambda>strm n. (Z_OTHER (- 3), [], strm)) \<rparr>"

definition zl_end :: "unit zlib" where
  "zl_end = \<lparr> inflateInit2 = (\<lambda>wb. Some ()),
              inflate = (\<lambda>strm n. (Z_STREAM_END, [], strm)) \<rparr>"

definition zl_grow :: "bool zlib" where
  "zl_grow = \<lparr> inflateInit2 = (\<lambda>wb. Some False),
               inflate = (\<lambda>strm n. if zstate strm then (Z_STREAM_END, [2], strm)
                                     else (Z_OK, replicate n 1, strm\<lparr> zstate := True \<rparr>)) \<rparr>"

text \<open>
  Claim C5. When the attempts with window bits 15 (zlib), 16 + 15 (gzip) and -15 (raw
  DEFLATE) all return a failure, \<open>maybe_decompress_lvz\<close> returns the input itself with
  its length. The attempts are made in that order: the result is that of the first
  attempt that succeeds.
\<close>

theorem maybe_decompress_verbatim:
  "(try_inflate zl inp 15 = Some (Inl e1) \<longrightarrow> try_inflate zl inp (16 + 15) = Some (Inl e2) \<longrightarrow>
      try_inflate zl inp (- 15) = Some (Inl e3) \<longrightarrow>
        maybe_decompress_lvz zl inp = Some (inp, length inp)) \<and>
   (try_inflate zl inp 15 = Some (Inr r) \<longrightarrow> maybe_decompress_lvz zl inp = Some r) \<and>
   (try_inflate zl inp 15 = Some (Inl e1) \<longrightarrow> try_inflate zl inp (16 + 15) = Some (Inr r) \<longrightarrow>
      maybe_decompress_lvz zl inp = Some r) \<and>
   (try_inflate zl inp 15 = Some (Inl e1) \<longrightarrow> try_inflate zl inp (16 + 15) = Some (Inl e2) \<longrightarrow>
      try_inflate zl inp (- 15) = Some (Inr r) \<longrightarrow> maybe_decompress_lvz zl inp = Some r)"
  by (cases r) (simp add: maybe_decompress_lvz_def)

lemma zl_fail_15: "try_inflate zl_fail [1, 2, 3] 15 = Some (Inl (- 2))"
  unfolding try_inflate_def
  by (subst inflate_loop.simps) (simp add: zl_fail_def Let_def)

lemma zl_fail_31: "try_inflate zl_fail [1, 2, 3] (16 + 15) = Some (Inl (- 2))"
  unfolding try_inflate_def
  by (subst inflate_loop.simps) (simp add: zl_fail_def Let_def)

lemma zl_fail_raw: "try_inflate zl_fail [1, 2, 3] (- 15) = Some (Inl (- 1))"
  by (simp add: try_inflate_def zl_fail_def)

theorem maybe_decompress_verbatim_witness:
  "try_inflate zl_fail [1, 2, 3] 15 = Some (Inl (- 2)) \<and>
   try_inflate zl_fail [1, 2, 3] (16 + 15) = Some (Inl (- 2)) \<and>
   try_inflate zl_fail [1, 2, 3] (- 15) = Some (Inl (- 1)) \<and>
   maybe_decompress_lvz zl_fail [1, 2, 3] = Some ([1, 2, 3], 3)"
  using maybe_decompress_verbatim [of zl_fail "[1, 2, 3]" "- 2" "- 2" "- 1"]
    zl_fail_15 zl_fail_31 zl_fail_raw
  by simp

text \<open>
  \<open>grown_from cap r\<close>: a failure \<open>r\<close> of the loop is the code -2; a success is a buffer
  whose capacity is reached from \<open>cap\<close> by steps \<open>c \<mapsto> 2 * c + 8192\<close>, with \<open>*out_len\<close> within
  it.
\<close>

definition grown_from :: "nat \<Rightarrow> int + u8 list \<times> nat \<Rightarrow> bool" where
  "grown_from cap r =
     (case r of Inl e \<Rightarrow> e = - 2
      | Inr (res, n) \<Rightarrow> n \<le> length res \<and> (\<exists>k. length res = ((\<lambda>c. c * 2 + 8192) ^^ k) cap))"

lemma grown_from_step:
  assumes "grown_from cap' r" and "cap' = cap \<or> cap' = cap * 2 + 8192"
  shows "grown_from cap r"
proof (cases r)
  case (Inl e)
  with assms(1) show ?thesis by (simp add: grown_from_def)
next
  case (Inr p)
  obtain res n where p: "p = (res, n)" by (cases p)
  from assms(1) Inr p obtain k where n: "n \<le> length res"
    and k: "length res = ((\<lambda>c. c * 2 + 8192) ^^ k) cap'"
    by (auto simp: grown_from_def)
  from assms(2) have "cap' = ((\<lambda>c. c * 2 + 8192) ^^ 0) cap \<or> cap' = ((\<lambda>c. c * 2 + 8192) ^^ 1) cap"
    by simp
  then obtain k' where "cap' = ((\<lambda>c. c * 2 + 8192) ^^ k') cap" by blast
  with k have "length res = ((\<lambda>c. c * 2 + 8192) ^^ (k + k')) cap"
    by (simp add: funpow_add)
  with n Inr p show ?thesis by (auto simp: grown_from_def)
qed

lemma inflate_loop_inv:
  assumes "inflate_loop zl strm out cap tot = Some r"
  shows "length out = cap \<longrightarrow> tot \<le> cap \<longrightarrow> grown_from cap r"
proof (rule inflate_loop.raw_induct
    [where P = "\<lambda>zl strm out cap tot r. length out = cap \<longrightarrow> tot \<le> cap \<longrightarrow> grown_from cap r",
      OF _ assms])
  fix loop :: "'a zlib \<Rightarrow> 'a z_stream \<Rightarrow> u8 list \<Rightarrow> nat \<Rightarrow> nat \<Rightarrow> (int + u8 list \<times> nat) option"
    and zl strm out cap tot r
  assume IH: "\<And>zl strm out cap tot r. loop zl strm out cap tot = Some r \<Longrightarrow>
      length out = cap \<longrightarrow> tot \<le> cap \<longrightarrow> grown_from cap r"
    and body0: "(let cap' = (if tot = cap then cap * 2 + 8192 else cap);
          out' = (if tot = cap then out @ replicate (cap' - cap) 0 else out);
          avail = (cap' - tot) mod 2 ^ 32
      in case inflate zl strm avail of (ret, stored, strm') \<Rightarrow>
        let bytes = take avail stored;
            out'' = take tot out' @ bytes @ drop (tot + length bytes) out';
            avail_after = avail - length bytes
        in if ret = Z_STREAM_END then Some (Inr (out'', cap' - avail_after))
           else if ret \<noteq> Z_OK then Some (Inl (- 2))
           else loop zl strm' out'' cap' (cap' - avail_after)) = Some r"
  show "length out = cap \<longrightarrow> tot \<le> cap \<longrightarrow> grown_from cap r"
  proof (intro impI)
    assume len: "length out = cap" and le: "tot \<le> cap"
    define cap' where "cap' = (if tot = cap then cap * 2 + 8192 else cap)"
    define out' where "out' = (if tot = cap then out @ replicate (cap' - cap) 0 else out)"
    define avail where "avail = (cap' - tot) mod 2 ^ 32"
    obtain ret stored strm' where inf: "inflate zl strm avail = (ret, stored, strm')"
      by (cases "inflate zl strm avail")
    define bytes where "bytes = take avail stored"
    define out'' where "out'' = take tot out' @ bytes @ drop (tot + length bytes) out'"
    define avail_after where "avail_after = avail - length bytes"
    have body: "(if ret = Z_STREAM_END then Some (Inr (out'', cap' - avail_after))
        else if ret \<noteq> Z_OK then Some (Inl (- 2))
        else loop zl strm' out'' cap' (cap' - avail_after)) = Some r"
      using body0 inf
      unfolding out''_def avail_after_def bytes_def avail_def out'_def cap'_def Let_def
      by simp
    have lo': "length out' = cap'" using len by (auto simp: out'_def cap'_def)
    have le': "tot \<le> cap'" using le by (simp add: cap'_def)
    have av: "avail \<le> cap' - tot" by (simp add: avail_def)
    have lb: "length bytes \<le> avail" by (simp add: bytes_def)
    have lo'': "length out'' = cap'"
      using lo' le' av lb by (simp add: out''_def)
    have capk: "cap' = cap \<or> cap' = cap * 2 + 8192" by (simp add: cap'_def)
    consider (fin) "ret = Z_STREAM_END" | (err) "ret \<noteq> Z_STREAM_END" "ret \<noteq> Z_OK" | (ok) "ret = Z_OK"
      by blast
    then have "grown_from cap' r"
    proof cases
      case fin
      with body have "r = Inr (out'', cap' - avail_after)" by simp
      with lo'' show ?thesis
        unfolding grown_from_def by (auto intro: exI [of _ 0])
    next
      case err
      with body have "r = Inl (- 2)" by simp
      then show ?thesis by (simp add: grown_from_def)
    next
      case ok
      with body have rec: "loop zl strm' out'' cap' (cap' - avail_after) = Some r" by simp
      show ?thesis
        using IH [OF rec] lo'' by simp
    qed
    then show "grown_from cap r" using capk by (rule grown_from_step)
  qed
qed

lemma diff_cap: "cap * 2 + 8192 - cap = cap + (8192 :: nat)"
  by simp

lemma inflate_loop_grow:
  "inflate_loop zl strm out cap cap =
     inflate_loop zl strm (out @ replicate (cap + 8192) 0) (cap * 2 + 8192) cap"
  apply (rule trans [OF inflate_loop.simps [of zl strm out cap cap]])
  apply (rule trans [OF _ inflate_loop.simps [of zl strm "out @ replicate (cap + 8192) 0" "cap * 2 + 8192" cap, symmetric]])
  apply (simp add: Let_def diff_cap split: prod.split)
  done


text \<open>
  Claim C6, as amended. An attempt whose decoder initialises runs the loop on a buffer
  of capacity \<open>max (3 * input_len + 1024) 4096\<close>; the buffer an attempt returns has a
  capacity reached from that one by steps \<open>c \<mapsto> 2 * c + 8192\<close>; and the loop entered
  with an exhausted buffer (\<open>total = cap\<close>) goes on as the loop with capacity
  \<open>2 * cap + 8192\<close>.
\<close>

theorem try_inflate_capacity:
  "(inflateInit2 zl wb = Some z \<longrightarrow>
      try_inflate zl inp wb =
        inflate_loop zl \<lparr> next_in = inp, avail_in = length inp mod 2 ^ 32, zstate = z \<rparr>
          (replicate (max (length inp * 3 + 1024) 4096) 0) (max (length inp * 3 + 1024) 4096) 0) \<and>
   (try_inflate zl inp wb = Some (Inr (out, n)) \<longrightarrow>
      n \<le> length out \<and>
      (\<exists>k. length out = ((\<lambda>c. c * 2 + 8192) ^^ k) (max (length inp * 3 + 1024) 4096))) \<and>
   inflate_loop zl strm out0 cap cap =
     inflate_loop zl strm (out0 @ replicate (cap + 8192) 0) (cap * 2 + 8192) cap"
proof -
  let ?c = "max (length inp * 3 + 1024) 4096"
  have c: "(if length inp * 3 + 1024 < 4096 then 4096 else length inp * 3 + 1024) = ?c"
    by (simp add: max_def)
  have a: "try_inflate zl inp wb =
      inflate_loop zl \<lparr> next_in = inp, avail_in = length inp mod 2 ^ 32, zstate = z \<rparr>
        (replicate ?c 0) ?c 0"
    if "inflateInit2 zl wb = Some z"
    using that unfolding try_inflate_def Let_def c by simp
  have b: "n \<le> length out \<and> (\<exists>k. length out = ((\<lambda>c. c * 2 + 8192) ^^ k) ?c)"
    if r: "try_inflate zl inp wb = Some (Inr (out, n))"
  proof (cases "inflateInit2 zl wb")
    case None
    with r show ?thesis by (simp add: try_inflate_def)
  next
    case (Some z')
    have "try_inflate zl inp wb =
      inflate_loop zl \<lparr> next_in = inp, avail_in = length inp mod 2 ^ 32, zstate = z' \<rparr>
        (replicate ?c 0) ?c 0"
      using Some unfolding try_inflate_def Let_def c by simp
    with r have "grown_from ?c (Inr (out, n))"
      using inflate_loop_inv [of zl _ "replicate ?c 0" ?c 0 "Inr (out, n)"] by simp
    then show ?thesis by (simp add: grown_from_def)
  qed
  from a b inflate_loop_grow [of zl strm out0 cap] show ?thesis by blast
qed

text \<open>
  The capacity is not \<open>3 * input_len + 1024\<close> for inputs shorter than 1024 bytes: the
  source raises it to 4096 (\<open>if (cap < 4096) cap = 4096\<close>). For the empty input the
  buffer has 4096 bytes, not 1024.
\<close>

lemma zl_end_run: "try_inflate zl_end [] 15 = Some (Inr (replicate 4096 0, 0))"
  unfolding try_inflate_def
  by (subst inflate_loop.simps) (simp add: zl_end_def Let_def)

theorem try_inflate_capacity_counterexample:
  "try_inflate zl_end [] 15 = Some (Inr (replicate 4096 0, 0)) \<and>
   length (replicate 4096 (0 :: u8)) \<noteq> 3 * length ([] :: u8 list) + 1024"
  using zl_end_run by simp

lemma zl_grow_run:
  "try_inflate zl_grow [] 15 = Some (Inr (replicate 4096 1 @ 2 # replicate 12287 0, 4097))"
  unfolding try_inflate_def
  apply (subst inflate_loop.simps)
  apply (simp add: zl_grow_def Let_def)
  apply (subst inflate_loop.simps)
  apply (simp add: Let_def)
  done

theorem try_inflate_capacity_witness:
  "inflateInit2 zl_grow 15 = Some False \<and>
   try_inflate zl_grow [] 15 = Some (Inr (replicate 4096 1 @ 2 # replicate 12287 0, 4097)) \<and>
   4097 \<le> length (replicate 4096 (1 :: u8) @ 2 # replicate 12287 0) \<and>
   length (replicate 4096 (1 :: u8) @ 2 # replicate 12287 0) = 4096 * 2 + 8192 \<and>
   (\<exists>k. length (replicate 4096 (1 :: u8) @ 2 # replicate 12287 0) =
        ((\<lambda>c. c * 2 + 8192) ^^ k) (max (length ([] :: u8 list) * 3 + 1024) 4096))"
  using try_inflate_capacity [of zl_grow 15 False "[]" "replicate 4096 1 @ 2 # replicate 12287 0" 4097]
    zl_grow_run
  by (simp add: zl_grow_def)


section \<open>Properties of the record reconstructor\<close>

text \<open>The bytes of an output file, empty when the file does not exist.\<close>

definition file_of :: "io_state \<Rightarrow> path \<Rightarrow> u8 list" where
  "file_of st f = (case files st f of None \<Rightarrow> [] | Some c \<Rightarrow> c)"

lemma fwrite_reads: "img_reads (snd (fwrite env f buf st)) = img_reads st"
  by (simp add: fwrite_def Let_def)

lemma fwrite_frame: "q \<noteq> f \<Longrightarrow> files (snd (fwrite env f buf st)) q = files st q"
  by (simp add: fwrite_def Let_def)

lemma fwrite_file:
  "files (snd (fwrite env f buf st)) f =
     Some (file_of st f @ take (min (length buf) (fwrite_n env f (length (file_of st f)) (length buf))) buf)"
  by (simp add: fwrite_def Let_def file_of_def)

lemma fread_length: "length (fread env img pos want) \<le> want"
  by (simp add: fread_def)

lemma copy_loop_stop: "copy_loop env img f pos 0 tot st = (tot, st)"
  by (subst copy_loop.simps) simp

lemma copy_loop_step:
  assumes "left \<noteq> 0"
  shows "copy_loop env img f pos left tot st =
     (let want = (if left > CHUNK then CHUNK else left);
          buf = fread env img pos want;
          got = length buf;
          st1 = st\<lparr> img_reads := img_reads st @ [(pos, want)] \<rparr>
      in if got = 0 then (tot, st1)
         else
           let st2 = snd (fwrite env f buf st1) in
           if got < want then (tot + got, st2)
           else copy_loop env img f (pos + got) (left - got) (tot + got) st2)"
  using assms by (subst copy_loop.simps) simp

lemma copy_loop_reads:
  "\<exists>rs. img_reads (snd (copy_loop env img f pos left tot st)) = img_reads st @ rs \<and>
        (\<forall>(p, w) \<in> set rs. pos \<le> p \<and> p + w \<le> pos + left)"
proof (induction env img f pos left tot st rule: copy_loop.induct)
  case (1 env img f pos left tot st)
  show ?case
  proof (cases "left = 0")
    case True
    then show ?thesis by (simp add: copy_loop_stop)
  next
    case False
    define want where "want = (if left > CHUNK then CHUNK else left)"
    define buf where "buf = fread env img pos want"
    define got where "got = length buf"
    define st1 where "st1 = st\<lparr> img_reads := img_reads st @ [(pos, want)] \<rparr>"
    define st2 where "st2 = snd (fwrite env f buf st1)"
    have wl: "want \<le> left" by (simp add: want_def)
    have gw: "got \<le> want" by (simp add: got_def buf_def fread_length)
    have r1: "img_reads st1 = img_reads st @ [(pos, want)]" by (simp add: st1_def)
    have r2: "img_reads st2 = img_reads st @ [(pos, want)]"
      by (simp add: st2_def fwrite_reads r1)
    have step: "copy_loop env img f pos left tot st =
        (if got = 0 then (tot, st1)
         else if got < want then (tot + got, st2)
         else copy_loop env img f (pos + got) (left - got) (tot + got) st2)"
      unfolding copy_loop_step [OF False] Let_def want_def buf_def got_def st1_def st2_def
      by simp
    show ?thesis
    proof (cases "got = 0 \<or> got < want")
      case True
      then have "img_reads (snd (copy_loop env img f pos left tot st)) = img_reads st @ [(pos, want)]"
        using step r1 r2 by auto
      with wl show ?thesis by simp
    next
      case False
      then have g: "got \<noteq> 0" "\<not> got < want" by simp_all
      with gw have gw': "got = want" by simp
      have "\<exists>rs. img_reads (snd (copy_loop env img f (pos + got) (left - got) (tot + got) st2)) =
          img_reads st2 @ rs \<and>
          (\<forall>(p, w) \<in> set rs. pos + got \<le> p \<and> p + w \<le> pos + got + (left - got))"
        using "1.IH" [OF \<open>left \<noteq> 0\<close> want_def buf_def got_def st1_def g(1) st2_def g(2)] .
      then obtain rs where rs: "img_reads (snd (copy_loop env img f (pos + got) (left - got) (tot + got) st2)) =
          img_reads st2 @ rs"
        and b: "\<forall>(p, w) \<in> set rs. pos + got \<le> p \<and> p + w \<le> pos + got + (left - got)"
        by blast
      have "img_reads (snd (copy_loop env img f pos left tot st)) = img_reads st @ ((pos, want) # rs)"
        using step g rs r2 by simp
      moreover have "\<forall>(p, w) \<in> set ((pos, want) # rs). pos \<le> p \<and> p + w \<le> pos + left"
        using b wl gw' by auto
      ultimately show ?thesis by blast
    qed
  qed
qed

lemma copy_loop_frame:
  "q \<noteq> f \<Longrightarrow> files (snd (copy_loop env img f pos left tot st)) q = files st q"
proof (induction env img f pos left tot st rule: copy_loop.induct)
  case (1 env img f pos left tot st)
  show ?case
  proof (cases "left = 0")
    case True
    then show ?thesis by (simp add: copy_loop_stop)
  next
    case False
    define want where "want = (if left > CHUNK then CHUNK else left)"
    define buf where "buf = fread env img pos want"
    define got where "got = length buf"
    define st1 where "st1 = st\<lparr> img_reads := img_reads st @ [(pos, want)] \<rparr>"
    define st2 where "st2 = snd (fwrite env f buf st1)"
    have f1: "files st1 q = files st q" by (simp add: st1_def)
    have f2: "files st2 q = files st q"
      using "1.prems" by (simp add: st2_def fwrite_frame f1)
    have step: "copy_loop env img f pos left tot st =
        (if got = 0 then (tot, st1)
         else if got < want then (tot + got, st2)
         else copy_loop env img f (pos + got) (left - got) (tot + got) st2)"
      unfolding copy_loop_step [OF False] Let_def want_def buf_def got_def st1_def st2_def
      by simp
    show ?thesis
    proof (cases "got = 0 \<or> got < want")
      case True
      then show ?thesis using step f1 f2 by auto
    next
      case False
      then have g: "got \<noteq> 0" "\<not> got < want" by simp_all
      have "files (snd (copy_loop env img f (pos + got) (left - got) (tot + got) st2)) q = files st2 q"
        using "1.IH" [OF \<open>left \<noteq> 0\<close> want_def buf_def got_def st1_def g(1) st2_def g(2) "1.prems"] .
      then show ?thesis using step g f2 by simp
    qed
  qed
qed

lemma file_of_fwrite:
  "file_of (snd (fwrite env f buf st)) f =
     file_of st f @ take (min (length buf) (fwrite_n env f (length (file_of st f)) (length buf))) buf"
  by (simp add: fwrite_file file_of_def)

lemma take_split: "want \<le> left \<Longrightarrow>
  take want (drop pos img) @ take (left - want) (drop (pos + want) img) = take left (drop pos img)"
  using take_add [of want "left - want" "drop pos img"] by (simp add: add.commute)

lemma copy_loop_full:
  "(\<forall>p w. w \<le> fread_n env p w) \<Longrightarrow> (\<forall>len n. n \<le> fwrite_n env f len n) \<Longrightarrow>
   pos + left \<le> length img \<Longrightarrow>
     fst (copy_loop env img f pos left tot st) = tot + left \<and>
     file_of (snd (copy_loop env img f pos left tot st)) f =
       file_of st f @ take left (drop pos img)"
proof (induction env img f pos left tot st rule: copy_loop.induct)
  case (1 env img f pos left tot st)
  show ?case
  proof (cases "left = 0")
    case True
    then show ?thesis by (simp add: copy_loop_stop)
  next
    case False
    define want where "want = (if left > CHUNK then CHUNK else left)"
    define buf where "buf = fread env img pos want"
    define got where "got = length buf"
    define st1 where "st1 = st\<lparr> img_reads := img_reads st @ [(pos, want)] \<rparr>"
    define st2 where "st2 = snd (fwrite env f buf st1)"
    have wl: "want \<le> left" by (simp add: want_def)
    have w0: "want \<noteq> 0" using False by (simp add: want_def CHUNK_def)
    have b: "buf = take want (drop pos img)"
      using "1.prems"(1) by (simp add: buf_def fread_def min_absorb1)
    have gw: "got = want"
      using "1.prems"(3) wl by (simp add: got_def b)
    have f1: "file_of st1 f = file_of st f" by (simp add: st1_def file_of_def)
    have f2: "file_of st2 f = file_of st f @ take want (drop pos img)"
      using "1.prems"(2) gw
      by (simp add: st2_def file_of_fwrite f1 min_absorb1 got_def [symmetric] b [symmetric])
    have step: "copy_loop env img f pos left tot st =
        (if got = 0 then (tot, st1)
         else if got < want then (tot + got, st2)
         else copy_loop env img f (pos + got) (left - got) (tot + got) st2)"
      unfolding copy_loop_step [OF False] Let_def want_def buf_def got_def st1_def st2_def
      by simp
    have g: "got \<noteq> 0" "\<not> got < want" using gw w0 by simp_all
    have "pos + got + (left - got) \<le> length img"
      using "1.prems"(3) gw wl by simp
    then have IH: "fst (copy_loop env img f (pos + got) (left - got) (tot + got) st2) =
        tot + got + (left - got) \<and>
      file_of (snd (copy_loop env img f (pos + got) (left - got) (tot + got) st2)) f =
        file_of st2 f @ take (left - got) (drop (pos + got) img)"
      using "1.IH" [OF \<open>left \<noteq> 0\<close> want_def buf_def got_def st1_def g(1) st2_def g(2)
          "1.prems"(1,2)] by simp
    have "copy_loop env img f pos left tot st =
        copy_loop env img f (pos + got) (left - got) (tot + got) st2"
      using step g by simp
    then show ?thesis
      using IH f2 gw wl by (simp add: take_split)
  qed
qed


section \<open>Claims about the record reconstructor\<close>

text \<open>
  For concrete runs: a file system where every open, write and read is complete, a
  payload file of 100 bytes, and two index buffers holding one header each, with
  \<open>total_size = 112\<close> and \<open>continuation = 50\<close> (\<open>clip_buf\<close>) or \<open>150\<close> (\<open>beyond_buf\<close>).
\<close>

definition io_ideal :: io_env where
  "io_ideal = \<lparr> fopen_wb_ok = (\<lambda>p. True), fwrite_n = (\<lambda>p len n. n), fwrite_ret = (\<lambda>p len n. n),
       fread_n = (\<lambda>pos n. n) \<rparr>"

definition payload100 :: "u8 list" where
  "payload100 = map of_nat [0..<100]"

definition clip_buf :: "u8 list" where
  "clip_buf =
     [0x44, 0x4C, 0x52, 0x57,  0, 0, 0, 0,  0x70, 0, 0, 0,  0, 0, 0, 0,
      0, 0, 0, 0,  0, 0, 0, 0,  0x32, 0, 0, 0,  0, 0, 0, 0]"

definition beyond_buf :: "u8 list" where
  "beyond_buf =
     [0x44, 0x4C, 0x52, 0x57,  0, 0, 0, 0,  0x70, 0, 0, 0,  0, 0, 0, 0,
      0, 0, 0, 0,  0, 0, 0, 0,  0x96, 0, 0, 0,  0, 0, 0, 0]"

lemma header_write:
  assumes "unat (lvz_off h) + 32 \<le> length d" and "32 \<le> fwrite_n env p 0 32"
  shows "fwrite env p (take 32 (drop (unat (lvz_off h)) d)) (st\<lparr> files := (files st)(p \<mapsto> []) \<rparr>) =
     (32, st\<lparr> files := (files st)(p \<mapsto> take 32 (drop (unat (lvz_off h)) d)) \<rparr>)"
  using assms by (simp add: fwrite_def Let_def min_absorb1)

lemma copy_img_slice_loop:
  "start \<le> stop \<Longrightarrow>
   copy_img_slice env img start stop f st = copy_loop env img f start (stop - start) 0 st"
  by (simp add: copy_img_slice_def Let_def)

text \<open>
  Claim C2. Let the output file \<open>p\<close> open and take the 32 header bytes, and let
  \<open>continuation \<le> payload_size < continuation + (total_size - 32)\<close>. Then \<open>write_wrld\<close>
  returns 0, logs the clip, and copies the range from \<open>continuation\<close> to
  \<open>payload_size\<close>; every read it makes on the payload file lies in that range; and when
  no read and no write is short and the payload file has \<open>payload_size\<close> bytes, the
  output file is the header followed by the payload bytes from \<open>continuation\<close> to
  \<open>payload_size\<close>, which are \<open>32 + (payload_size - continuation)\<close> bytes.
\<close>

theorem write_wrld_clips:
  assumes "fopen_wb_ok env p" and "32 \<le> fwrite_n env p 0 32"
    and "unat (lvz_off h) + 32 \<le> length d"
    and "unat (continuation h) \<le> img_size"
    and "int img_size < int (unat (continuation h)) + (int (unat (total_size h)) - 32)"
  shows "write_wrld env h d img img_size p (Some ls) st =
           (case copy_img_slice env img (unat (continuation h)) img_size p
                   (st\<lparr> files := (files st)(p \<mapsto> take 32 (drop (unat (lvz_off h)) d)) \<rparr>) of
              (body, st2) \<Rightarrow>
                (0,
                 Some (ls @ [WarnClipped (unat (continuation h) + (unat (total_size h) - 32)) img_size,
                             Build p body (32 + body) (total_size h)]),
                 st2)) \<and>
         (\<exists>rs. img_reads (snd (snd (write_wrld env h d img img_size p (Some ls) st))) =
                 img_reads st @ rs \<and>
               (\<forall>(q, w) \<in> set rs. unat (continuation h) \<le> q \<and> q + w \<le> img_size)) \<and>
         ((\<forall>q w. w \<le> fread_n env q w) \<and> (\<forall>len n. n \<le> fwrite_n env p len n) \<and>
          img_size \<le> length img \<longrightarrow>
            file_of (snd (snd (write_wrld env h d img img_size p (Some ls) st))) p =
              take 32 (drop (unat (lvz_off h)) d) @
              take (img_size - unat (continuation h)) (drop (unat (continuation h)) img) \<and>
            length (file_of (snd (snd (write_wrld env h d img img_size p (Some ls) st))) p) =
              32 + (img_size - unat (continuation h)))"
proof -
  define start where "start = unat (continuation h)"
  define hdr32 where "hdr32 = take 32 (drop (unat (lvz_off h)) d)"
  define st1 where "st1 = st\<lparr> files := (files st)(p \<mapsto> hdr32) \<rparr>"
  have t: "32 \<le> unat (total_size h)" and over: "img_size < start + (unat (total_size h) - 32)"
    using assms(4,5) unfolding start_def by linarith+
  have t': "32 \<le> total_size h"
    using t by (simp add: word_le_nat_alt)
  have sl: "start \<le> img_size" using assms(4) by (simp add: start_def)
  have w: "write_wrld env h d img img_size p (Some ls) st =
      (case copy_img_slice env img start img_size p st1 of
         (body, st2) \<Rightarrow>
           (0, Some (ls @ [WarnClipped (start + (unat (total_size h) - 32)) img_size,
                           Build p body (32 + body) (total_size h)]), st2))"
    using assms(1) t' sl over
    unfolding write_wrld_def Let_def header_write [OF assms(3,2)] start_def st1_def hdr32_def
    by (simp add: fprintf_log_def split: prod.splits)
  define r where "r = copy_loop env img p start (img_size - start) 0 st1"
  have c: "copy_img_slice env img start img_size p st1 = r"
    using sl by (simp add: copy_img_slice_loop r_def)
  have st': "snd (snd (write_wrld env h d img img_size p (Some ls) st)) = snd r"
    unfolding w c by (simp split: prod.splits)
  have reads: "\<exists>rs. img_reads (snd r) = img_reads st @ rs \<and>
      (\<forall>(q, w) \<in> set rs. start \<le> q \<and> q + w \<le> img_size)"
    using copy_loop_reads [of env img p start "img_size - start" 0 st1] sl
    by (simp add: r_def st1_def)
  have full: "file_of (snd r) p = hdr32 @ take (img_size - start) (drop start img) \<and>
      length (file_of (snd r) p) = 32 + (img_size - start)"
    if a: "\<forall>q w. w \<le> fread_n env q w" "\<forall>len n. n \<le> fwrite_n env p len n"
      and l: "img_size \<le> length img"
  proof -
    have "start + (img_size - start) \<le> length img" using sl l by simp
    from copy_loop_full [OF a this, of 0 st1]
    have f: "file_of (snd r) p = hdr32 @ take (img_size - start) (drop start img)"
      by (simp add: r_def st1_def file_of_def)
    have "length hdr32 = 32" using assms(3) by (simp add: hdr32_def)
    with f sl l show ?thesis by simp
  qed
  show ?thesis
    unfolding st'
    using w reads full
    unfolding start_def st1_def hdr32_def by blast
qed


lemma clip_header: "header_at clip_buf 0 = hdr 0 0 \<lparr> total_size := 112, continuation := 50 \<rparr>"
  by (simp add: header_at_def clip_buf_def read_u32le_def hdr_def)

lemma beyond_header: "header_at beyond_buf 0 = hdr 0 0 \<lparr> total_size := 112, continuation := 150 \<rparr>"
  by (simp add: header_at_def beyond_buf_def read_u32le_def hdr_def)

lemma payload100_length: "length payload100 = 100"
  by (simp add: payload100_def)

lemma clip_buf_length: "length clip_buf = 32"
  by (simp add: clip_buf_def)

lemma io_ideal_simps:
  "fopen_wb_ok io_ideal p" "fwrite_n io_ideal p len n = n" "fwrite_ret io_ideal p len n = n"
  "fread_n io_ideal pos n = n"
  by (simp_all add: io_ideal_def)

lemma clip_copy:
  "copy_loop io_ideal payload100 0 50 50 0 st =
     (50, st\<lparr> img_reads := img_reads st @ [(50, 50)],
               files := (files st)(0 \<mapsto> file_of st 0 @ take 50 (drop 50 payload100)) \<rparr>)"
  apply (subst copy_loop_step)
   apply simp
  apply (simp add: Let_def CHUNK_def fread_def fwrite_def io_ideal_def payload100_length
      copy_loop_stop file_of_def)
  done

lemma clip_run:
  "write_wrld io_ideal (header_at clip_buf 0) clip_buf payload100 100 0 (Some []) io_start =
     (0, Some [WarnClipped 130 100, Build 0 50 82 112],
      \<lparr> files = [0 \<mapsto> clip_buf @ take 50 (drop 50 payload100)], img_reads = [(50, 50)] \<rparr>)"
  unfolding clip_header
  by (simp add: write_wrld_def Let_def hdr_def io_start_def copy_img_slice_def clip_copy
      fprintf_log_def fwrite_def io_ideal_simps clip_buf_length file_of_def)


theorem write_wrld_clips_witness:
  "fopen_wb_ok io_ideal 0 \<and> 32 \<le> fwrite_n io_ideal 0 0 32 \<and>
   unat (lvz_off (header_at clip_buf 0)) + 32 \<le> length clip_buf \<and>
   unat (continuation (header_at clip_buf 0)) = 50 \<and>
   unat (total_size (header_at clip_buf 0)) = 112 \<and>
   write_wrld io_ideal (header_at clip_buf 0) clip_buf payload100 100 0 (Some []) io_start =
     (0, Some [WarnClipped 130 100, Build 0 50 82 112],
      \<lparr> files = [0 \<mapsto> clip_buf @ take 50 (drop 50 payload100)], img_reads = [(50, 50)] \<rparr>) \<and>
   length (file_of (snd (snd (write_wrld io_ideal (header_at clip_buf 0) clip_buf payload100 100 0
      (Some []) io_start))) 0) = 82"
proof -
  have h: "unat (lvz_off (header_at clip_buf 0)) = 0"
    "unat (continuation (header_at clip_buf 0)) = 50"
    "unat (total_size (header_at clip_buf 0)) = 112"
    by (simp_all add: clip_header hdr_def)
  have a: "unat (lvz_off (header_at clip_buf 0)) + 32 \<le> length clip_buf"
    "unat (continuation (header_at clip_buf 0)) \<le> 100"
    "int 100 < int (unat (continuation (header_at clip_buf 0))) +
       (int (unat (total_size (header_at clip_buf 0))) - 32)"
    unfolding h by (simp_all add: clip_buf_length)
  have i: "fopen_wb_ok io_ideal 0" "32 \<le> fwrite_n io_ideal 0 0 32"
    "(\<forall>q w. w \<le> fread_n io_ideal q w) \<and> (\<forall>len n. n \<le> fwrite_n io_ideal 0 len n) \<and>
     100 \<le> length payload100"
    by (simp_all add: io_ideal_simps payload100_length)
  from write_wrld_clips [OF i(1,2) a, of payload100 "[]" io_start] i(3)
  have "length (file_of (snd (snd (write_wrld io_ideal (header_at clip_buf 0) clip_buf payload100 100 0
      (Some []) io_start))) 0) = 32 + (100 - unat (continuation (header_at clip_buf 0)))"
    by blast
  then show ?thesis
    using h a(1) i(1,2) clip_run by simp
qed

lemma beyond_buf_length: "length beyond_buf = 32"
  by (simp add: beyond_buf_def)

section \<open>Properties of the driver\<close>

text \<open>
  For the header's \<open>fwrite\<close> on the freshly opened file: \<open>hdr_count\<close> is the number of
  bytes that reach the file, \<open>hdr_ret\<close> the count the call returns and \<open>hdr_state\<close> the
  state after it. \<open>wrld_rc\<close> is the return code of \<open>write_wrld\<close>, which depends on the
  result of \<open>fopen\<close> and on \<open>hdr_ret\<close> only.
\<close>

definition hdr_count :: "io_env \<Rightarrow> WrldHeader \<Rightarrow> u8 list \<Rightarrow> path \<Rightarrow> nat" where
  "hdr_count env h d p =
     min (length (take 32 (drop (unat (lvz_off h)) d)))
       (fwrite_n env p 0 (length (take 32 (drop (unat (lvz_off h)) d))))"

definition hdr_ret :: "io_env \<Rightarrow> WrldHeader \<Rightarrow> u8 list \<Rightarrow> path \<Rightarrow> nat" where
  "hdr_ret env h d p =
     max (hdr_count env h d p)
       (min (length (take 32 (drop (unat (lvz_off h)) d)))
          (fwrite_ret env p 0 (length (take 32 (drop (unat (lvz_off h)) d)))))"

definition hdr_state :: "io_env \<Rightarrow> WrldHeader \<Rightarrow> u8 list \<Rightarrow> path \<Rightarrow> io_state \<Rightarrow> io_state" where
  "hdr_state env h d p st =
     st\<lparr> files := (files st)(p \<mapsto> take (hdr_count env h d p) (take 32 (drop (unat (lvz_off h)) d))) \<rparr>"

definition wrld_rc :: "io_env \<Rightarrow> WrldHeader \<Rightarrow> u8 list \<Rightarrow> path \<Rightarrow> int" where
  "wrld_rc env h d p =
     (if \<not> fopen_wb_ok env p then - 1 else if hdr_ret env h d p \<noteq> 32 then - 2 else 0)"

lemma fwrite_fresh:
  "fwrite env p (take 32 (drop (unat (lvz_off h)) d)) (st\<lparr> files := (files st)(p \<mapsto> []) \<rparr>) =
     (hdr_ret env h d p, hdr_state env h d p st)"
  by (simp add: fwrite_def Let_def hdr_count_def hdr_ret_def hdr_state_def)

lemma write_wrld_unfold:
  "write_wrld env h d img img_size p lg st =
     (if \<not> fopen_wb_ok env p then (- 1, fprintf_log lg (ErrCannotWrite p), st)
      else if hdr_ret env h d p \<noteq> 32
      then (- 2, fprintf_log lg (ErrHeaderWrite p), hdr_state env h d p st)
      else if unat (continuation h) > img_size
      then (0, fprintf_log lg (WarnBeyond (unat (continuation h)) img_size), hdr_state env h d p st)
      else
        (0,
         fprintf_log
           (if unat (continuation h) + (if total_size h \<ge> 32 then unat (total_size h) - 32 else 0) > img_size
            then fprintf_log lg (WarnClipped (unat (continuation h) + (if total_size h \<ge> 32 then unat (total_size h) - 32 else 0)) img_size)
            else lg)
           (Build p
             (fst (copy_img_slice env img (unat (continuation h))
                (min (unat (continuation h) + (if total_size h \<ge> 32 then unat (total_size h) - 32 else 0)) img_size)
                p (hdr_state env h d p st)))
             (32 + fst (copy_img_slice env img (unat (continuation h))
                (min (unat (continuation h) + (if total_size h \<ge> 32 then unat (total_size h) - 32 else 0)) img_size)
                p (hdr_state env h d p st)))
             (total_size h)),
         snd (copy_img_slice env img (unat (continuation h))
                (min (unat (continuation h) + (if total_size h \<ge> 32 then unat (total_size h) - 32 else 0)) img_size)
                p (hdr_state env h d p st))))"
  unfolding write_wrld_def Let_def fwrite_fresh
  by (simp add: min_def split: prod.splits)

lemma write_wrld_rc: "fst (write_wrld env h d img img_size p lg st) = wrld_rc env h d p"
  by (simp add: write_wrld_unfold wrld_rc_def)

lemma write_wrld_log:
  "\<exists>ms. fst (snd (write_wrld env h d img img_size p (Some ls) st)) = Some (ls @ ms)"
  by (simp add: write_wrld_unfold fprintf_log_def)

lemma copy_img_slice_frame:
  "q \<noteq> f \<Longrightarrow> files (snd (copy_img_slice env img start stop f st)) q = files st q"
  by (simp add: copy_img_slice_def Let_def copy_loop_frame)

lemma write_wrld_frame:
  "q \<noteq> p \<Longrightarrow> files (snd (snd (write_wrld env h d img img_size p lg st))) q = files st q"
  by (simp add: write_wrld_unfold copy_img_slice_frame hdr_state_def)


lemma fwrite_file_cong:
  "files st f = files st' f \<Longrightarrow>
   files (snd (fwrite env f buf st)) f = files (snd (fwrite env f buf st')) f"
  by (simp add: fwrite_def Let_def)

lemma copy_loop_file_cong:
  "files st f = files st' f \<Longrightarrow>
   files (snd (copy_loop env img f pos left tot st)) f =
   files (snd (copy_loop env img f pos left tot' st')) f"
proof (induction env img f pos left tot st arbitrary: tot' st' rule: copy_loop.induct)
  case (1 env img f pos left tot st)
  show ?case
  proof (cases "left = 0")
    case True
    with "1.prems" show ?thesis by (simp add: copy_loop_stop)
  next
    case False
    define want where "want = (if left > CHUNK then CHUNK else left)"
    define buf where "buf = fread env img pos want"
    define got where "got = length buf"
    define st1 where "st1 = st\<lparr> img_reads := img_reads st @ [(pos, want)] \<rparr>"
    define st2 where "st2 = snd (fwrite env f buf st1)"
    define st1' where "st1' = st'\<lparr> img_reads := img_reads st' @ [(pos, want)] \<rparr>"
    define st2' where "st2' = snd (fwrite env f buf st1')"
    have f1: "files st1 f = files st1' f" using "1.prems" by (simp add: st1_def st1'_def)
    have f2: "files st2 f = files st2' f"
      unfolding st2_def st2'_def using f1 by (rule fwrite_file_cong)
    have step: "copy_loop env img f pos left tot st =
        (if got = 0 then (tot, st1)
         else if got < want then (tot + got, st2)
         else copy_loop env img f (pos + got) (left - got) (tot + got) st2)"
      unfolding copy_loop_step [OF False] Let_def want_def buf_def got_def st1_def st2_def
      by simp
    have step': "copy_loop env img f pos left tot' st' =
        (if got = 0 then (tot', st1')
         else if got < want then (tot' + got, st2')
         else copy_loop env img f (pos + got) (left - got) (tot' + got) st2')"
      unfolding copy_loop_step [OF False] Let_def want_def buf_def got_def st1'_def st2'_def
      by simp
    show ?thesis
    proof (cases "got = 0 \<or> got < want")
      case True
      then show ?thesis using step step' f1 f2 by auto
    next
      case False
      then have g: "got \<noteq> 0" "\<not> got < want" by simp_all
      have "files (snd (copy_loop env img f (pos + got) (left - got) (tot + got) st2)) f =
          files (snd (copy_loop env img f (pos + got) (left - got) (tot' + got) st2')) f"
        using "1.IH" [OF \<open>left \<noteq> 0\<close> want_def buf_def got_def st1_def g(1) st2_def g(2) f2] .
      then show ?thesis using step step' g by simp
    qed
  qed
qed

lemma write_wrld_file:
  assumes "fopen_wb_ok env p"
  shows "files (snd (snd (write_wrld env h d img img_size p lg st))) p =
         files (snd (snd (write_wrld env h d img img_size p lg' st'))) p"
proof -
  have a: "files (hdr_state env h d p st) p = files (hdr_state env h d p st') p"
    by (simp add: hdr_state_def)
  then have "files (snd (copy_img_slice env img start stop p (hdr_state env h d p st))) p =
      files (snd (copy_img_slice env img start stop p (hdr_state env h d p st'))) p"
    for start stop
    unfolding copy_img_slice_def Let_def by (rule copy_loop_file_cong)
  with a show ?thesis
    using assms by (simp add: write_wrld_unfold)
qed

lemma write_all_frame:
  "q < i \<Longrightarrow> files (snd (snd (write_all env d img img_size i hs (w, lg, st)))) q = files st q"
proof (induction hs arbitrary: i w lg st)
  case Nil
  then show ?case by simp
next
  case (Cons h hs)
  obtain rc lg' st' where r: "write_wrld env h d img img_size i lg st = (rc, lg', st')"
    by (cases "write_wrld env h d img img_size i lg st")
  have "files st' q = files st q"
    using write_wrld_frame [of q i env h d img img_size lg st] Cons.prems r by simp
  moreover have "q < i + 1" using Cons.prems by simp
  ultimately show ?case
    using r Cons.IH [of "i + 1"] by simp
qed

lemma write_all_log:
  "\<exists>ms. fst (snd (write_all env d img img_size i hs (w, Some ls, st))) = Some (ls @ ms)"
proof (induction hs arbitrary: i w ls st)
  case Nil
  then show ?case by simp
next
  case (Cons h hs)
  obtain rc lg' st' where r: "write_wrld env h d img img_size i (Some ls) st = (rc, lg', st')"
    by (cases "write_wrld env h d img img_size i (Some ls) st")
  from write_wrld_log [of env h d img img_size i ls st] r
  obtain ms where lg': "lg' = Some (ls @ ms)" by auto
  show ?case
  proof (cases "rc = 0")
    case True
    from Cons.IH [of "i + 1" "w + 1" "ls @ ms" st']
    obtain ms' where "fst (snd (write_all env d img img_size (i + 1) hs (w + 1, Some (ls @ ms), st'))) =
        Some ((ls @ ms) @ ms')" by blast
    with r lg' True show ?thesis by simp
  next
    case False
    from Cons.IH [of "i + 1" w "ls @ ms @ [WarnFailed i rc]" st']
    obtain ms' where "fst (snd (write_all env d img img_size (i + 1) hs
        (w, Some (ls @ ms @ [WarnFailed i rc]), st'))) = Some ((ls @ ms @ [WarnFailed i rc]) @ ms')"
      by blast
    with r lg' False show ?thesis by (simp add: fprintf_log_def)
  qed
qed


lemma upt_Suc_shift: "[0..<Suc n] = 0 # map Suc [0..<n]"
  by (simp add: upt_conv_Cons map_Suc_upt del: upt_Suc)

lemma write_all_run:
  "fst (write_all env d img img_size i hs (w, Some ls, st)) =
     w + length (filter (\<lambda>k. fst (write_wrld env (hs ! k) d img img_size (i + k) None io_start) = 0)
           [0..<length hs]) \<and>
   (\<exists>ms. fst (snd (write_all env d img img_size i hs (w, Some ls, st))) = Some (ls @ ms) \<and>
      (\<forall>k < length hs.
         fst (write_wrld env (hs ! k) d img img_size (i + k) None io_start) \<noteq> 0 \<longrightarrow>
         WarnFailed (i + k) (fst (write_wrld env (hs ! k) d img img_size (i + k) None io_start))
           \<in> set ms)) \<and>
   (\<forall>k < length hs. fopen_wb_ok env (i + k) \<longrightarrow>
      files (snd (snd (write_all env d img img_size i hs (w, Some ls, st)))) (i + k) =
      files (snd (snd (write_wrld env (hs ! k) d img img_size (i + k) None io_start))) (i + k))"
proof (induction hs arbitrary: i w ls st)
  case Nil
  then show ?case by simp
next
  case (Cons h hs)
  let ?rc = "\<lambda>i h. fst (write_wrld env h d img img_size i None io_start)"
  obtain rc lg' st' where r: "write_wrld env h d img img_size i (Some ls) st = (rc, lg', st')"
    by (cases "write_wrld env h d img img_size i (Some ls) st")
  have rc: "rc = ?rc i h"
    using write_wrld_rc [of env h d img img_size i "Some ls" st]
      write_wrld_rc [of env h d img img_size i None io_start] r by simp
  from write_wrld_log [of env h d img img_size i ls st] r
  obtain ms0 where lg': "lg' = Some (ls @ ms0)" by auto
  define w1 where "w1 = (if rc = 0 then w + 1 else w)"
  define ls1 where "ls1 = (if rc = 0 then ls @ ms0 else ls @ ms0 @ [WarnFailed i rc])"
  have step: "write_all env d img img_size i (h # hs) (w, Some ls, st) =
      write_all env d img img_size (i + 1) hs (w1, Some ls1, st')"
    using r lg' by (simp add: w1_def ls1_def fprintf_log_def)
  note IH = Cons.IH [of "i + 1" w1 ls1 st']
  have shift: "(i + 1) + k = i + Suc k" for k by simp
  have count: "fst (write_all env d img img_size i (h # hs) (w, Some ls, st)) =
      w + length (filter (\<lambda>k. ?rc (i + k) ((h # hs) ! k) = 0) [0..<length (h # hs)])"
  proof -
    have "length (filter (\<lambda>k. ?rc (i + k) ((h # hs) ! k) = 0) [0..<length (h # hs)]) =
        (if rc = 0 then 1 else 0) +
        length (filter (\<lambda>k. ?rc (i + 1 + k) (hs ! k) = 0) [0..<length hs])"
      by (simp add: upt_Suc_shift filter_map comp_def rc del: upt_Suc)
    then show ?thesis
      unfolding step using IH by (simp add: w1_def)
  qed
  from IH obtain ms where ms: "fst (snd (write_all env d img img_size (i + 1) hs (w1, Some ls1, st'))) =
      Some (ls1 @ ms)"
    and warn: "\<forall>k < length hs. ?rc (i + 1 + k) (hs ! k) \<noteq> 0 \<longrightarrow>
        WarnFailed (i + 1 + k) (?rc (i + 1 + k) (hs ! k)) \<in> set ms"
    by blast
  define ms' where "ms' = (if rc = 0 then ms0 @ ms else ms0 @ [WarnFailed i rc] @ ms)"
  have lg: "fst (snd (write_all env d img img_size i (h # hs) (w, Some ls, st))) = Some (ls @ ms')"
    unfolding step ms by (simp add: ls1_def ms'_def)
  have warn': "\<forall>k < length (h # hs). ?rc (i + k) ((h # hs) ! k) \<noteq> 0 \<longrightarrow>
      WarnFailed (i + k) (?rc (i + k) ((h # hs) ! k)) \<in> set ms'"
  proof (intro allI impI)
    fix k assume k: "k < length (h # hs)" and ne: "?rc (i + k) ((h # hs) ! k) \<noteq> 0"
    show "WarnFailed (i + k) (?rc (i + k) ((h # hs) ! k)) \<in> set ms'"
    proof (cases k)
      case 0
      with ne rc show ?thesis by (simp add: ms'_def)
    next
      case (Suc k')
      with k ne warn have "WarnFailed (i + 1 + k') (?rc (i + 1 + k') (hs ! k')) \<in> set ms"
        by simp
      with Suc show ?thesis by (simp add: ms'_def)
    qed
  qed
  have fl: "\<forall>k < length (h # hs). fopen_wb_ok env (i + k) \<longrightarrow>
      files (snd (snd (write_all env d img img_size i (h # hs) (w, Some ls, st)))) (i + k) =
      files (snd (snd (write_wrld env ((h # hs) ! k) d img img_size (i + k) None io_start))) (i + k)"
  proof (intro allI impI)
    fix k assume k: "k < length (h # hs)" and ok: "fopen_wb_ok env (i + k)"
    show "files (snd (snd (write_all env d img img_size i (h # hs) (w, Some ls, st)))) (i + k) =
      files (snd (snd (write_wrld env ((h # hs) ! k) d img img_size (i + k) None io_start))) (i + k)"
    proof (cases k)
      case 0
      have "files (snd (snd (write_all env d img img_size (i + 1) hs (w1, Some ls1, st')))) i =
          files st' i"
        by (rule write_all_frame) simp
      moreover have "files st' i =
          files (snd (snd (write_wrld env h d img img_size i None io_start))) i"
        using write_wrld_file [of env i h d img img_size "Some ls" st None io_start] ok 0 r
        by simp
      ultimately show ?thesis unfolding step using 0 by simp
    next
      case (Suc k')
      with k ok IH show ?thesis unfolding step by simp
    qed
  qed
  from count lg warn' fl show ?case by blast
qed

text \<open>
  Claim C8. The loop of the driver over any list of headers, started with index \<open>i\<close>
  and count \<open>w\<close>. The return code of a record is -1 when its file cannot be opened, -2
  when the \<open>fwrite\<close> of the header does not return 32, and 0 otherwise (bytes lost
  after \<open>fwrite\<close> has returned 32 are not a failure the program sees). The final count
  is \<open>w\<close> plus the number of records whose return code is 0, so a failed record is not
  counted and the records after it are; the log is extended, and holds the line
  \<open>WarnFailed\<close> for every record that failed; and every record whose file opens has,
  at the end, the file that \<open>write_wrld\<close> writes for it, whatever happened to the
  records before it.
\<close>

theorem write_all_counts:
  "(\<forall>k < length hs.
      fst (write_wrld env (hs ! k) d img img_size (i + k) None io_start) =
        (if \<not> fopen_wb_ok env (i + k) then - 1
         else if hdr_ret env (hs ! k) d (i + k) \<noteq> 32 then - 2 else 0)) \<and>
   fst (write_all env d img img_size i hs (w, Some ls, st)) =
     w + length (filter (\<lambda>k. fst (write_wrld env (hs ! k) d img img_size (i + k) None io_start) = 0)
           [0..<length hs]) \<and>
   (\<exists>ms. fst (snd (write_all env d img img_size i hs (w, Some ls, st))) = Some (ls @ ms) \<and>
      (\<forall>k < length hs.
         fst (write_wrld env (hs ! k) d img img_size (i + k) None io_start) \<noteq> 0 \<longrightarrow>
         WarnFailed (i + k) (fst (write_wrld env (hs ! k) d img img_size (i + k) None io_start))
           \<in> set ms)) \<and>
   (\<forall>k < length hs. fopen_wb_ok env (i + k) \<longrightarrow>
      files (snd (snd (write_all env d img img_size i hs (w, Some ls, st)))) (i + k) =
      files (snd (snd (write_wrld env (hs ! k) d img img_size (i + k) None io_start))) (i + k))"
proof -
  have "\<forall>k < length hs.
      fst (write_wrld env (hs ! k) d img img_size (i + k) None io_start) =
        (if \<not> fopen_wb_ok env (i + k) then - 1
         else if hdr_ret env (hs ! k) d (i + k) \<noteq> 32 then - 2 else 0)"
    by (simp add: write_wrld_rc wrld_rc_def)
  with write_all_run [of env d img img_size i hs w ls st] show ?thesis by blast
qed

section \<open>Records beyond the payload\<close>

lemma length_filter_split:
  "length (filter P xs) =
     length (filter (\<lambda>x. Q x \<and> P x) xs) + length (filter (\<lambda>x. \<not> Q x \<and> P x) xs)"
  by (induction xs) auto

lemma count_with_one:
  assumes "k < n" and "P k"
  shows "length (filter P [0..<n]) = 1 + length (filter (\<lambda>j. j \<noteq> k \<and> P j) [0..<n])"
proof -
  have "filter (\<lambda>j. j = k \<and> P j) [0..<n] = [k]"
    using assms by (intro filter_upt_single) auto
  then show ?thesis
    using length_filter_split [of P "[0..<n]" "\<lambda>j. j = k"] by simp
qed

text \<open>
  Claim C3. Let record \<open>k\<close> of a batch have a \<open>continuation\<close> greater than the payload
  size, and let its output file open and take the 32 header bytes. Then \<open>write_wrld\<close>
  returns 0 for it, adds the line \<open>WarnBeyond\<close> to the log, leaves a file of exactly the
  32 header bytes and makes no read on the payload file; the count the driver's loop
  ends with is the start value plus one for this record plus the number of other
  records that return 0; and the file of the record still holds the 32 header bytes
  when the loop ends.
\<close>

theorem write_wrld_beyond:
  assumes "k < length hs"
    and "fopen_wb_ok env (i + k)" and "32 \<le> fwrite_n env (i + k) 0 32"
    and "unat (lvz_off (hs ! k)) + 32 \<le> length d"
    and "unat (continuation (hs ! k)) > img_size"
  shows "write_wrld env (hs ! k) d img img_size (i + k) (Some ls') st' =
           (0, Some (ls' @ [WarnBeyond (unat (continuation (hs ! k))) img_size]),
            st'\<lparr> files := (files st')(i + k \<mapsto> take 32 (drop (unat (lvz_off (hs ! k))) d)) \<rparr>) \<and>
         length (take 32 (drop (unat (lvz_off (hs ! k))) d)) = 32 \<and>
         fst (write_all env d img img_size i hs (written, Some ls, st)) =
           written + 1 +
           length (filter (\<lambda>j. j \<noteq> k \<and>
                      fst (write_wrld env (hs ! j) d img img_size (i + j) None io_start) = 0)
                   [0..<length hs]) \<and>
         files (snd (snd (write_all env d img img_size i hs (written, Some ls, st)))) (i + k) =
           Some (take 32 (drop (unat (lvz_off (hs ! k))) d))"
proof -
  let ?h = "hs ! k"
  let ?hdr = "take 32 (drop (unat (lvz_off ?h)) d)"
  have w: "write_wrld env ?h d img img_size (i + k) (Some ls) st =
           (0, Some (ls @ [WarnBeyond (unat (continuation ?h)) img_size]),
            st\<lparr> files := (files st)(i + k \<mapsto> ?hdr) \<rparr>)" for ls st
    using assms(2,5) unfolding write_wrld_def Let_def header_write [OF assms(4,3)]
    by (simp add: fprintf_log_def)
  have l: "length ?hdr = 32"
    using assms(4) by simp
  have rc: "fst (write_wrld env ?h d img img_size (i + k) None io_start) = 0"
    using write_wrld_rc [of env ?h d img img_size "i + k" None io_start]
      write_wrld_rc [of env ?h d img img_size "i + k" "Some []" io_start] w [of "[]" io_start]
    by simp
  note run = write_all_run [of env d img img_size i hs written ls st]
  have c: "fst (write_all env d img img_size i hs (written, Some ls, st)) =
      written + 1 +
      length (filter (\<lambda>j. j \<noteq> k \<and>
          fst (write_wrld env (hs ! j) d img img_size (i + j) None io_start) = 0) [0..<length hs])"
    using run
      count_with_one [of k "length hs"
        "\<lambda>j. fst (write_wrld env (hs ! j) d img img_size (i + j) None io_start) = 0", OF assms(1) rc]
    by simp
  have "files (snd (snd (write_all env d img img_size i hs (written, Some ls, st)))) (i + k) =
      files (snd (snd (write_wrld env ?h d img img_size (i + k) None io_start))) (i + k)"
    using run assms(1,2) by blast
  also have "\<dots> = files (snd (snd (write_wrld env ?h d img img_size (i + k) (Some []) io_start))) (i + k)"
    using assms(2) by (rule write_wrld_file)
  also have "\<dots> = Some ?hdr"
    unfolding w by simp
  finally have f: "files (snd (snd (write_all env d img img_size i hs (written, Some ls, st)))) (i + k) =
      Some ?hdr" .
  from w [of ls' st'] l c f show ?thesis by blast
qed

lemma beyond_ideal_rc:
  "fst (write_wrld io_ideal (header_at beyond_buf 0) beyond_buf payload100 100 p lg st) = 0"
  by (simp add: write_wrld_rc wrld_rc_def hdr_ret_def hdr_count_def io_ideal_simps beyond_header
      hdr_def beyond_buf_length)

theorem write_wrld_beyond_witness:
  "(1::nat) < length [header_at beyond_buf 0, header_at beyond_buf 0] \<and>
   fopen_wb_ok io_ideal (0 + 1) \<and> 32 \<le> fwrite_n io_ideal (0 + 1) 0 32 \<and>
   unat (lvz_off ([header_at beyond_buf 0, header_at beyond_buf 0] ! 1)) + 32 \<le> length beyond_buf \<and>
   unat (continuation ([header_at beyond_buf 0, header_at beyond_buf 0] ! 1)) = 150 \<and>
   write_wrld io_ideal (header_at beyond_buf 0) beyond_buf payload100 100 1 (Some []) io_start =
     (0, Some [WarnBeyond 150 100], \<lparr> files = [1 \<mapsto> beyond_buf], img_reads = [] \<rparr>) \<and>
   length beyond_buf = 32 \<and>
   fst (write_all io_ideal beyond_buf payload100 100 0
          [header_at beyond_buf 0, header_at beyond_buf 0] (0, Some [], io_start)) = 2 \<and>
   files (snd (snd (write_all io_ideal beyond_buf payload100 100 0
          [header_at beyond_buf 0, header_at beyond_buf 0] (0, Some [], io_start)))) 1 =
     Some beyond_buf"
proof -
  define hs where "hs = [header_at beyond_buf 0, header_at beyond_buf 0]"
  define r where "r = write_all io_ideal beyond_buf payload100 100 0 hs (0, Some [], io_start)"
  have len: "length hs = 2" by (simp add: hs_def)
  have n: "hs ! j = header_at beyond_buf 0" if "j < 2" for j
    using that unfolding hs_def by (auto simp: nth_Cons')
  have h: "unat (lvz_off (hs ! 1)) = 0" "unat (continuation (hs ! 1)) = 150"
    by (simp_all add: n beyond_header hdr_def)
  have a: "1 < length hs" "fopen_wb_ok io_ideal (0 + 1)" "32 \<le> fwrite_n io_ideal (0 + 1) 0 32"
    "unat (lvz_off (hs ! 1)) + 32 \<le> length beyond_buf"
    "100 < unat (continuation (hs ! 1))"
    unfolding h by (simp_all add: len io_ideal_simps beyond_buf_length)
  note t = write_wrld_beyond [OF a, of payload100 "[]" io_start 0 "[]" io_start, folded r_def]
  have "filter (\<lambda>j. j \<noteq> 1 \<and>
      fst (write_wrld io_ideal (hs ! j) beyond_buf payload100 100 (0 + j) None io_start) = 0)
      [0..<length hs] = filter (\<lambda>j. j \<noteq> 1) [0..<length hs]"
    by (rule filter_cong [OF refl]) (simp add: len n beyond_ideal_rc)
  also have "\<dots> = [0]" unfolding len by (simp add: numeral_2_eq_2)
  finally have c: "fst r = 2" using t by simp
  have w: "write_wrld io_ideal (header_at beyond_buf 0) beyond_buf payload100 100 1 (Some []) io_start =
     (0, Some [WarnBeyond 150 100], \<lparr> files = [1 \<mapsto> beyond_buf], img_reads = [] \<rparr>)"
    using t h n [of 1] by (simp add: beyond_buf_length io_start_def)
  have f: "files (snd (snd r)) 1 = Some beyond_buf"
    using t h by (simp add: beyond_buf_length)
  show ?thesis
    using a(2,3) w c f h n [of 1] unfolding r_def hs_def [symmetric]
    by (simp add: len beyond_buf_length)
qed


section \<open>A batch with failures\<close>

text \<open>
  A run of the loop on five header-only records in a file system where the file of
  record 1 cannot be opened, the header's \<open>fwrite\<close> of record 2 returns 16, and that of
  record 3 returns 32 although only 16 bytes reach the file. Records 0, 3 and 4 are
  counted, the failures of records 1 and 2 are logged, and the files of records 3 and
  4 are written.
\<close>

definition io_mixed :: io_env where
  "io_mixed =
     \<lparr> fopen_wb_ok = (\<lambda>p. p \<noteq> 1),
       fwrite_n = (\<lambda>p len n. if p = 2 \<or> p = 3 then 16 else n),
       fwrite_ret = (\<lambda>p len n. if p = 2 then 16 else n),
       fread_n = (\<lambda>pos n. n) \<rparr>"

lemma io_mixed_simps:
  "fopen_wb_ok io_mixed p \<longleftrightarrow> p \<noteq> 1"
  "fwrite_n io_mixed p len n = (if p = 2 \<or> p = 3 then 16 else n)"
  "fwrite_ret io_mixed p len n = (if p = 2 then 16 else n)"
  "fread_n io_mixed pos n = n"
  by (simp_all add: io_mixed_def)

lemma mixed_rc:
  "fst (write_wrld io_mixed (header_at beyond_buf 0) beyond_buf payload100 100 p lg st) =
     (if p = 1 then - 1 else if p = 2 then - 2 else 0)"
  by (simp add: write_wrld_rc wrld_rc_def hdr_ret_def hdr_count_def io_mixed_simps beyond_header
      hdr_def beyond_buf_length)

lemma mixed_file:
  "p \<noteq> 1 \<Longrightarrow>
   files (snd (snd (write_wrld io_mixed (header_at beyond_buf 0) beyond_buf payload100 100 p lg st))) p =
     Some (if p = 2 \<or> p = 3 then take 16 beyond_buf else beyond_buf)"
  by (simp add: write_wrld_unfold hdr_ret_def hdr_count_def hdr_state_def io_mixed_simps
      beyond_header hdr_def beyond_buf_length)

theorem write_all_counts_witness:
  "fst (write_all io_mixed beyond_buf payload100 100 0
          [header_at beyond_buf 0, header_at beyond_buf 0, header_at beyond_buf 0,
           header_at beyond_buf 0, header_at beyond_buf 0]
          (0, Some [], io_start)) = 3 \<and>
   (\<exists>ms. fst (snd (write_all io_mixed beyond_buf payload100 100 0
          [header_at beyond_buf 0, header_at beyond_buf 0, header_at beyond_buf 0,
           header_at beyond_buf 0, header_at beyond_buf 0]
          (0, Some [], io_start))) = Some ms \<and>
        WarnFailed 1 (- 1) \<in> set ms \<and> WarnFailed 2 (- 2) \<in> set ms) \<and>
   files (snd (snd (write_all io_mixed beyond_buf payload100 100 0
          [header_at beyond_buf 0, header_at beyond_buf 0, header_at beyond_buf 0,
           header_at beyond_buf 0, header_at beyond_buf 0]
          (0, Some [], io_start)))) 3 = Some (take 16 beyond_buf) \<and>
   files (snd (snd (write_all io_mixed beyond_buf payload100 100 0
          [header_at beyond_buf 0, header_at beyond_buf 0, header_at beyond_buf 0,
           header_at beyond_buf 0, header_at beyond_buf 0]
          (0, Some [], io_start)))) 4 = Some beyond_buf"
proof -
  define hs where "hs = [header_at beyond_buf 0, header_at beyond_buf 0, header_at beyond_buf 0,
           header_at beyond_buf 0, header_at beyond_buf 0]"
  define r where "r = write_all io_mixed beyond_buf payload100 100 0 hs (0, Some [], io_start)"
  have len: "length hs = 5" by (simp add: hs_def)
  have n: "hs ! k = header_at beyond_buf 0" if "k < 5" for k
    using that unfolding hs_def by (auto simp: nth_Cons')
  have rc: "fst (write_wrld io_mixed (hs ! k) beyond_buf payload100 100 k None io_start) =
      (if k = 1 then - 1 else if k = 2 then - 2 else 0)" if "k < 5" for k
    using n [OF that] by (simp add: mixed_rc)
  note t = write_all_counts [where env = io_mixed and d = beyond_buf and img = payload100
      and img_size = 100 and i = 0 and hs = hs and w = 0 and ls = "[]" and st = io_start,
      folded r_def]
  have c: "fst r = 3"
  proof -
    have "filter (\<lambda>k. fst (write_wrld io_mixed (hs ! k) beyond_buf payload100 100 (0 + k) None io_start) = 0)
        [0..<length hs] = filter (\<lambda>k. k \<noteq> 1 \<and> k \<noteq> 2) [0..<length hs]"
      by (rule filter_cong [OF refl]) (simp add: len rc)
    also have "length \<dots> = 3" unfolding len by (simp add: eval_nat_numeral)
    finally have "length (filter (\<lambda>k. fst (write_wrld io_mixed (hs ! k) beyond_buf payload100 100
        (0 + k) None io_start) = 0) [0..<length hs]) = 3" by simp
    with t show ?thesis by linarith
  qed
  from t obtain ms where ms: "fst (snd r) = Some ([] @ ms)"
    and w0: "\<forall>k < length hs.
         fst (write_wrld io_mixed (hs ! k) beyond_buf payload100 100 (0 + k) None io_start) \<noteq> 0 \<longrightarrow>
         WarnFailed (0 + k) (fst (write_wrld io_mixed (hs ! k) beyond_buf payload100 100 (0 + k) None io_start))
           \<in> set ms"
    by blast
  from w0 have w: "k < 5 \<Longrightarrow>
      fst (write_wrld io_mixed (hs ! k) beyond_buf payload100 100 k None io_start) \<noteq> 0 \<Longrightarrow>
      WarnFailed k (fst (write_wrld io_mixed (hs ! k) beyond_buf payload100 100 k None io_start)) \<in> set ms"
    for k by (simp add: len)
  have "WarnFailed 1 (- 1) \<in> set ms" using w [of 1] rc [of 1] by simp
  moreover have "WarnFailed 2 (- 2) \<in> set ms" using w [of 2] rc [of 2] by simp
  ultimately have l: "\<exists>ms. fst (snd r) = Some ms \<and> WarnFailed 1 (- 1) \<in> set ms \<and>
      WarnFailed 2 (- 2) \<in> set ms" using ms by simp
  from t have fl0: "\<forall>k < length hs. fopen_wb_ok io_mixed (0 + k) \<longrightarrow>
      files (snd (snd r)) (0 + k) =
      files (snd (snd (write_wrld io_mixed (hs ! k) beyond_buf payload100 100 (0 + k) None io_start))) (0 + k)"
    by blast
  then have fl: "k < 5 \<Longrightarrow> k \<noteq> 1 \<Longrightarrow> files (snd (snd r)) k =
      files (snd (snd (write_wrld io_mixed (hs ! k) beyond_buf payload100 100 k None io_start))) k"
    for k by (simp add: len io_mixed_simps)
  have f: "files (snd (snd r)) 3 = Some (take 16 beyond_buf)" "files (snd (snd r)) 4 = Some beyond_buf"
    using fl [of 3] fl [of 4] n [of 3] n [of 4] by (simp_all add: mixed_file)
  from c l f show ?thesis unfolding r_def hs_def by blast
qed


section \<open>Exit codes\<close>

lemma scan_headers_log: "fst (scan_slave_headers qs d lg) = fst (scan_slave_headers qs d None)"
  by (simp add: scan_slave_headers_def Let_def scan_pushed)

text \<open>
  Claim C7. \<open>main\<close> exits with 1 on a bad invocation and with 2 when the payload file
  is missing. When the log opens and the index file is read and decompressed to \<open>n\<close>
  bytes, it exits with 3 when \<open>n < 32\<close>, with 4 when the scanner returns no header, with 5
  when the payload file cannot be opened, and with 0 otherwise. The six codes are
  pairwise distinct.
\<close>

theorem main_exit_codes:
  "(argc s \<noteq> 2 \<longrightarrow> map_option exit_code (main s) = Some 1) \<and>
   (argc s = 2 \<and> \<not> img_exists s \<longrightarrow> map_option exit_code (main s) = Some 2) \<and>
   (argc s = 2 \<and> img_exists s \<and> log_opens s \<and> lvz_file s = LvzBytes raw \<and>
    maybe_decompress_lvz (zlib_lib s) raw = Some (buf, n) \<longrightarrow>
      (n < 32 \<longrightarrow> map_option exit_code (main s) = Some 3) \<and>
      (32 \<le> n \<and> fst (scan_slave_headers (qsort_lib s) (take n buf) None) = [] \<longrightarrow>
         map_option exit_code (main s) = Some 4) \<and>
      (32 \<le> n \<and> fst (scan_slave_headers (qsort_lib s) (take n buf) None) \<noteq> [] \<and>
       img_file s = None \<longrightarrow> map_option exit_code (main s) = Some 5) \<and>
      (32 \<le> n \<and> fst (scan_slave_headers (qsort_lib s) (take n buf) None) \<noteq> [] \<and>
       img_file s \<noteq> None \<longrightarrow> map_option exit_code (main s) = Some 0)) \<and>
   distinct [0 :: int, 1, 2, 3, 4, 5]"
proof -
  have a: "argc s \<noteq> 2 \<longrightarrow> map_option exit_code (main s) = Some 1"
    by (simp add: main_def finish_def)
  have b: "argc s = 2 \<and> \<not> img_exists s \<longrightarrow> map_option exit_code (main s) = Some 2"
    by (simp add: main_def finish_def)
  have c: "(n < 32 \<longrightarrow> map_option exit_code (main s) = Some 3) \<and>
      (32 \<le> n \<and> fst (scan_slave_headers (qsort_lib s) (take n buf) None) = [] \<longrightarrow>
         map_option exit_code (main s) = Some 4) \<and>
      (32 \<le> n \<and> fst (scan_slave_headers (qsort_lib s) (take n buf) None) \<noteq> [] \<and>
       img_file s = None \<longrightarrow> map_option exit_code (main s) = Some 5) \<and>
      (32 \<le> n \<and> fst (scan_slave_headers (qsort_lib s) (take n buf) None) \<noteq> [] \<and>
       img_file s \<noteq> None \<longrightarrow> map_option exit_code (main s) = Some 0)"
    if h: "argc s = 2" "img_exists s" "log_opens s" "lvz_file s = LvzBytes raw"
      "maybe_decompress_lvz (zlib_lib s) raw = Some (buf, n)"
  proof -
    define lg2 where "lg2 = (if \<not> is_marker (take n buf) 0
        then fprintf_log (fprintf_log (Some [LogPreamble]) (IoLvz (length raw) n)) WarnNoMagic
        else fprintf_log (Some [LogPreamble]) (IoLvz (length raw) n))"
    obtain headers lg3 where sc: "scan_slave_headers (qsort_lib s) (take n buf) lg2 = (headers, lg3)"
      by (cases "scan_slave_headers (qsort_lib s) (take n buf) lg2")
    have hd: "headers = fst (scan_slave_headers (qsort_lib s) (take n buf) None)"
      using scan_headers_log [of "qsort_lib s" "take n buf" lg2] sc by simp
    have m: "main s =
        (if n < 32
         then Some (finish 3 (fprintf_log (fprintf_log (Some [LogPreamble]) (IoLvz (length raw) n)) ErrTooSmall) io_start)
         else if length headers = 0 then Some (finish 4 (fprintf_log lg3 ErrNoHeaders) io_start)
         else (case img_file s of
                 None \<Rightarrow> Some (finish 5 (fprintf_log lg3 ErrCannotOpenImg) io_start)
               | Some img \<Rightarrow>
                   (case write_all (io s) (take n buf) img (length img) 0 headers
                           (0, fprintf_log lg3 (IoImg (length img)), io_start) of
                      (written, lg5, st) \<Rightarrow> Some (finish 0 (fprintf_log lg5 (Done written)) st))))"
      using h sc unfolding main_def Let_def lg2_def by simp
    show ?thesis
      unfolding m hd [symmetric]
      by (auto simp: finish_def split: option.splits prod.splits)
  qed
  from a b c show ?thesis by simp
qed


text \<open>
  A run for each exit code: \<open>sys_ok\<close> has an index file holding one valid header that no
  framing decodes, a payload file of 100 bytes and a file system without failures;
  the other runs change one component of it.
\<close>

definition sys_ok :: "unit sys" where
  "sys_ok = \<lparr> argc = 2, img_exists = True, log_opens = True, lvz_file = LvzBytes good_header,
               zlib_lib = zl_fail, qsort_lib = qsort_model, img_file = Some payload100,
               io = io_ideal \<rparr>"

lemma zl_fail_loop: "inflate_loop zl_fail strm out cap tot = Some (Inl (- 2))"
  by (subst inflate_loop.simps) (simp add: zl_fail_def Let_def)

lemma zl_fail_init:
  "inflateInit2 zl_fail wb = (if wb = - 15 then None else Some ())"
  by (simp add: zl_fail_def)

lemma zl_fail_verbatim: "maybe_decompress_lvz zl_fail raw = Some (raw, length raw)"
proof -
  have "try_inflate zl_fail raw 15 = Some (Inl (- 2))"
    "try_inflate zl_fail raw (16 + 15) = Some (Inl (- 2))"
    "try_inflate zl_fail raw (- 15) = Some (Inl (- 1))"
    by (simp_all add: try_inflate_def Let_def zl_fail_loop zl_fail_init split: option.splits)
  then show ?thesis by (simp add: maybe_decompress_lvz_def)
qed

lemma bad_header_scan: "fst (scan_slave_headers qsort_model bad_header None) = []"
proof -
  have "\<not> valid_at bad_header j" for j
  proof
    assume v: "valid_at bad_header j"
    then have "j = 0" by (simp add: valid_at_def bad_header_length)
    with v show False
      by (simp add: valid_at_def header_at_def read_u32le_def bad_header_def)
  qed
  then have "filter (valid_at bad_header) [0..<length bad_header] = []"
    by (simp add: filter_empty_conv)
  then show ?thesis
    using scan_headers_small [OF qsort_model_contract, of bad_header None]
    by (simp add: bad_header_length)
qed

lemma good_header_scan: "fst (scan_slave_headers qsort_model good_header None) = [header_at good_header 0]"
proof -
  have v: "valid_at good_header j \<longleftrightarrow> j = 0" for j
  proof
    assume "valid_at good_header j"
    then show "j = 0" by (simp add: valid_at_def good_header_length)
  next
    assume "j = 0"
    then show "valid_at good_header j"
      by (simp add: valid_at_def is_marker_def header_at_def read_u32le_def good_header_def)
  qed
  have "filter (valid_at good_header) [0..<length good_header] = [0]"
    using v by (intro filter_upt_single) (simp_all add: good_header_length)
  then show ?thesis
    using scan_headers_small [OF qsort_model_contract, of good_header None]
    by (simp add: good_header_length)
qed

theorem main_exit_codes_witness:
  "map_option exit_code (main (sys_ok\<lparr> argc := 1 \<rparr>)) = Some 1 \<and>
   map_option exit_code (main (sys_ok\<lparr> img_exists := False \<rparr>)) = Some 2 \<and>
   map_option exit_code (main (sys_ok\<lparr> lvz_file := LvzBytes [1, 2, 3] \<rparr>)) = Some 3 \<and>
   map_option exit_code (main (sys_ok\<lparr> lvz_file := LvzBytes bad_header \<rparr>)) = Some 4 \<and>
   map_option exit_code (main (sys_ok\<lparr> img_file := None \<rparr>)) = Some 5 \<and>
   map_option exit_code (main sys_ok) = Some 0"
proof -
  have 1: "map_option exit_code (main (sys_ok\<lparr> argc := 1 \<rparr>)) = Some 1"
    using main_exit_codes [of "sys_ok\<lparr> argc := 1 \<rparr>"] by (simp add: sys_ok_def)
  have 2: "map_option exit_code (main (sys_ok\<lparr> img_exists := False \<rparr>)) = Some 2"
    using main_exit_codes [of "sys_ok\<lparr> img_exists := False \<rparr>"] by (simp add: sys_ok_def)
  have 3: "map_option exit_code (main (sys_ok\<lparr> lvz_file := LvzBytes [1, 2, 3] \<rparr>)) = Some 3"
    using main_exit_codes [of "sys_ok\<lparr> lvz_file := LvzBytes [1, 2, 3] \<rparr>" "[1, 2, 3]" "[1, 2, 3]" 3]
    by (simp add: sys_ok_def zl_fail_verbatim)
  have 4: "map_option exit_code (main (sys_ok\<lparr> lvz_file := LvzBytes bad_header \<rparr>)) = Some 4"
    using main_exit_codes [of "sys_ok\<lparr> lvz_file := LvzBytes bad_header \<rparr>" bad_header bad_header 32]
    by (simp add: sys_ok_def zl_fail_verbatim bad_header_length bad_header_scan)
  have 5: "map_option exit_code (main (sys_ok\<lparr> img_file := None \<rparr>)) = Some 5"
    using main_exit_codes [of "sys_ok\<lparr> img_file := None \<rparr>" good_header good_header 32]
    by (simp add: sys_ok_def zl_fail_verbatim good_header_length good_header_scan)
  have 0: "map_option exit_code (main sys_ok) = Some 0"
    using main_exit_codes [of sys_ok good_header good_header 32]
    by (simp add: sys_ok_def zl_fail_verbatim good_header_length good_header_scan)
  from 1 2 3 4 5 0 show ?thesis by simp
qed


end
